theory Spec2Isabelle
  imports Complex_Main "HOL-Library.Multiset" "HOL-Library.Log_Nat"
begin

section \<open>Data model\<close>

text \<open>
  The scene of SORT (\<^verbatim>\<open>src/core/scene.cpp\<close>) answers two questions: what does a ray
  hit, and which light is sampled. The embedding below keeps the names of the source.
  A C++ \<^verbatim>\<open>float\<close> that holds a finite value is a \<open>real\<close> here: comparisons, \<open>min\<close> and
  \<open>max\<close> of finite floats are exact, so the intersection code is modelled without loss.
  Where the code computes with floats, in the sum and the quotients of
  \<^verbatim>\<open>_genLightDistribution\<close>, the model computes in \<open>flt\<close>: the floats of IEEE 754 binary32
  with the infinities and NaN, every result rounded as the hardware rounds it. The table
  of \<^verbatim>\<open>Distribution1D\<close>, which is modelled from the spec, is computed in the reals.
\<close>

definition FLT_MAX :: real where
  "FLT_MAX = 340282346638528859811704183484516925440"

datatype flt = Fin real | PosInf | NegInf | NaN

text \<open>
  Arithmetic on floats is IEEE 754 binary32 with the default rounding, to nearest with ties
  to even, every operation rounded on its own (\<^verbatim>\<open>FLT_EVAL_METHOD\<close> 0). The finite floats are
  the numbers \<open>m * 2 ^ k / 2 ^ 149\<close> with \<open>m < 2 ^ 24\<close> and \<open>k \<le> 253\<close>, and their negatives:
  multiples of the least subnormal \<open>1 / 2 ^ 149\<close>, the greatest being
  \<^verbatim>\<open>FLT_MAX\<close>, which is \<open>(2 ^ 24 - 1) * 2 ^ 253 / 2 ^ 149\<close>.
\<close>

definition binary32 :: "real \<Rightarrow> bool" where
  "binary32 x \<longleftrightarrow> (\<exists>m k. m < 2 ^ 24 \<and> k \<le> 253 \<and> \<bar>x\<bar> = real m * 2 ^ k / 2 ^ 149)"

text \<open>
  Rounding of a real to the nearest integer, a tie going to the even one.
\<close>

definition round_half_even :: "real \<Rightarrow> int" where
  "round_half_even y =
     (let f = \<lfloor>y\<rfloor>; d = y - of_int f
      in if d < 1 / 2 then f
         else if 1 / 2 < d then f + 1
         else if even f then f else f + 1)"

text \<open>
  The float that an operation returns whose exact result is the real \<open>x\<close>. From
  \<open>2 ^ 128 - 2 ^ 103\<close> on, half a unit in the last place above \<^verbatim>\<open>FLT_MAX\<close>, the result is
  an infinity. Below, \<open>\<bar>x\<bar>\<close> is counted in units of \<open>1 / 2 ^ 149\<close>; a number of \<open>b\<close> bits
  before the binary point keeps its leading 24 bits, so the spacing of the floats around
  it is \<open>2 ^ k\<close> units with \<open>k = b - 24\<close> (\<open>k = 0\<close> for the subnormals and the least binade),
  and the number of spacings is rounded to an integer. The two zeros are not told apart.
\<close>

definition round_binary32 :: "real \<Rightarrow> flt" where
  "round_binary32 x =
     (if 2 ^ 128 - 2 ^ 103 \<le> \<bar>x\<bar> then (if 0 < x then PosInf else NegInf)
      else
        let a = \<bar>x\<bar> * 2 ^ 149;
            k = floorlog 2 (nat \<lfloor>a\<rfloor>) - 24;
            m = round_half_even (a / 2 ^ k)
        in Fin (sgn x * of_int m * 2 ^ k / 2 ^ 149))"

text \<open>
  Addition and division of floats: NaN is passed on, \<open>\<infinity> - \<infinity>\<close> and \<open>\<infinity> / \<infinity>\<close> and
  \<open>0 / 0\<close> are NaN, \<open>x / 0\<close> is an infinity, a finite number over an infinity is zero, and two
  finite operands give their exact sum or quotient, rounded. A zero divisor is taken as
  \<open>+0\<close>: the one divisor of the code, \<^verbatim>\<open>total_pdf\<close>, is a sum started from \<^verbatim>\<open>0.0f\<close>, which is
  never \<open>-0\<close>.
\<close>

fun fadd :: "flt \<Rightarrow> flt \<Rightarrow> flt" where
  "fadd NaN y = NaN"
| "fadd x NaN = NaN"
| "fadd PosInf NegInf = NaN"
| "fadd NegInf PosInf = NaN"
| "fadd PosInf y = PosInf"
| "fadd x PosInf = PosInf"
| "fadd NegInf y = NegInf"
| "fadd x NegInf = NegInf"
| "fadd (Fin a) (Fin b) = round_binary32 (a + b)"

fun fdiv :: "flt \<Rightarrow> flt \<Rightarrow> flt" where
  "fdiv NaN y = NaN"
| "fdiv x NaN = NaN"
| "fdiv (Fin a) (Fin b) =
     (if b \<noteq> 0 then round_binary32 (a / b)
      else if a = 0 then NaN
      else if 0 < a then PosInf else NegInf)"
| "fdiv (Fin a) y = Fin 0"
| "fdiv PosInf (Fin b) = (if 0 \<le> b then PosInf else NegInf)"
| "fdiv NegInf (Fin b) = (if 0 \<le> b then NegInf else PosInf)"
| "fdiv x y = NaN"

text \<open>
  Of a ray the scene reads only \<^verbatim>\<open>m_fMax\<close>; origin, direction and the other members live
  in the extension of the record and are seen by the primitives alone.
\<close>

record Ray =
  m_fMax :: real

text \<open>
  Of the hit record the scene reads and writes \<^verbatim>\<open>t\<close> and reads \<^verbatim>\<open>primitive\<close>, a pointer
  (\<open>None\<close> is the null pointer). \<open>'p\<close> is the type of primitives.
\<close>

record 'p Intersection =
  t :: real
  primitive :: "'p option"

text \<open>
  \<^verbatim>\<open>Primitive::GetIntersect( const Ray& r , Intersection* intersect )\<close> is virtual: the
  scene is written against any implementation of it. An implementation is a function from
  the primitive, the ray and the (possibly null) hit record to the flag returned and the
  hit record afterwards.
\<close>

type_synonym ('p, 'r) prim_intersect =
  "'p \<Rightarrow> 'r Ray_scheme \<Rightarrow> 'p Intersection option \<Rightarrow> bool \<times> 'p Intersection option"

text \<open>
  Modelled from the spec: \<^verbatim>\<open>Primitive::GetIntersect\<close>, whose implementations
  (\<^verbatim>\<open>Triangle::GetIntersect\<close> in \<^verbatim>\<open>triangle.cpp\<close>) are not among the sources; only the
  declaration in \<^verbatim>\<open>triangle.h\<close> is. The spec (4.2): it "returns whether the ray hits the
  primitive within the ray's valid parametric range \<open>[0, tMax]\<close>. If a hit-record pointer is
  supplied, it is updated in place only when the new hit is strictly closer than the
  caller's running best". The geometry is the parameter \<open>hit_dist\<close>: \<open>hit_dist p r\<close> is the
  parametric distance at which the line of \<open>r\<close> meets \<open>p\<close>, if it does.
\<close>

definition Primitive_GetIntersect ::
  "('p \<Rightarrow> 'r Ray_scheme \<Rightarrow> real option) \<Rightarrow> ('p, 'r) prim_intersect" where
  "Primitive_GetIntersect hit_dist p r intersect =
     (case hit_dist p r of
        None \<Rightarrow> (False, intersect)
      | Some d \<Rightarrow>
          if 0 \<le> d \<and> d \<le> m_fMax r
          then (True, map_option
                        (\<lambda>h. if d < t h then h\<lparr>t := d, primitive := Some p\<rparr> else h)
                        intersect)
          else (False, intersect))"

text \<open>
  Modelled from the spec: \<^verbatim>\<open>BBox\<close> and \<^verbatim>\<open>BBox::Union\<close> (\<^verbatim>\<open>math/bbox.h\<close> is not among the
  sources). The spec (3, 4.1): a box is a "min/max corner in 3D" or "the canonical empty
  sentinel"; the union "returns the smallest box containing both; union with the empty
  sentinel is the identity operation".
\<close>

type_synonym Point = "real \<times> real \<times> real"

datatype BBox = EmptyBBox | Box (m_Min: Point) (m_Max: Point)

fun pmin :: "Point \<Rightarrow> Point \<Rightarrow> Point" where
  "pmin (x, y, z) (x', y', z') = (min x x', min y y', min z z')"

fun pmax :: "Point \<Rightarrow> Point \<Rightarrow> Point" where
  "pmax (x, y, z) (x', y', z') = (max x x', max y y', max z z')"

fun BBox_Union :: "BBox \<Rightarrow> BBox \<Rightarrow> BBox" where
  "BBox_Union EmptyBBox b = b"
| "BBox_Union b EmptyBBox = b"
| "BBox_Union (Box lo hi) (Box lo' hi') = Box (pmin lo lo') (pmax hi hi')"

text \<open>
  A light, as far as the scene uses it: \<open>light_power\<close> is the value of
  \<^verbatim>\<open>Power().GetIntensity()\<close>, a finite float; \<open>pick_pdf\<close> is the member that \<^verbatim>\<open>SetPickPDF\<close>
  assigns.
\<close>

record Light =
  light_power :: real
  pick_pdf :: flt

definition SetPickPDF :: "flt \<Rightarrow> Light \<Rightarrow> Light" where
  "SetPickPDF pdf l = l\<lparr>pick_pdf := pdf\<rparr>"

text \<open>
  Modelled from the spec: \<^verbatim>\<open>Distribution1D\<close> (\<^verbatim>\<open>core/samplemethod.h\<close> is not among the
  sources). The spec (3, 4.3): "an ordered sequence of cumulative weights of length n
  (built from n non-negative input weights, normalized to sum to 1) plus the total of the
  raw weights"; the constructor "treats negative weights as 0; computes prefix sums; if
  total weight is 0, the distribution is empty and sampling always fails. Normalizes
  cumulative sums by the total"; \<^verbatim>\<open>SampleDiscrete\<close> "locates the first cumulative-sum entry
  \<open>\<ge> u\<close> via binary search; returns that entry's index and its normalized probability mass.
  Fails (returns an invalid/sentinel index and pdf 0) if the distribution is empty. Edge
  case: \<open>u == 1.0\<close> must resolve to the last valid index, not an out-of-range one"; that
  index is \<open>n - 1\<close> (8): "\<^verbatim>\<open>sampleDiscrete(1.0)\<close> returns index n-1".
\<close>

record Distribution1D =
  cdf :: "real list"
  dist_sum :: real

fun prefix_sums :: "real \<Rightarrow> real list \<Rightarrow> real list" where
  "prefix_sums acc [] = []"
| "prefix_sums acc (w # ws) = (acc + w) # prefix_sums (acc + w) ws"

definition Distribution1D_build :: "real list \<Rightarrow> nat \<Rightarrow> Distribution1D" where
  "Distribution1D_build f n =
     (let cum = prefix_sums 0 (map (max 0) (take n f));
          total = (if cum = [] then 0 else last cum)
      in \<lparr>cdf = (if total = 0 then cum else map (\<lambda>c. c / total) cum), dist_sum = total\<rparr>)"

text \<open>
  The binary search for the first entry \<open>\<ge> u\<close> among the entries \<open>lo ..< hi\<close> of the
  table; \<open>hi\<close> when there is none.
\<close>

function lower_bound :: "real list \<Rightarrow> real \<Rightarrow> nat \<Rightarrow> nat \<Rightarrow> nat" where
  "lower_bound cs u lo hi =
     (if lo < hi
      then let mid = (lo + hi) div 2
           in if cs ! mid < u then lower_bound cs u (mid + 1) hi else lower_bound cs u lo mid
      else lo)"
  by pat_completeness auto
termination
  by (relation "measure (\<lambda>(cs, u, lo, hi). hi - lo)") auto

declare lower_bound.simps [simp del]

definition GetProperty :: "Distribution1D \<Rightarrow> nat \<Rightarrow> real" where
  "GetProperty d i =
     (if dist_sum d = 0 \<or> length (cdf d) \<le> i then 0
      else cdf d ! i - (if i = 0 then 0 else cdf d ! (i - 1)))"

definition SampleDiscrete :: "Distribution1D \<Rightarrow> real \<Rightarrow> int \<times> real" where
  "SampleDiscrete d u =
     (if dist_sum d = 0 then (- 1, 0)
      else let i = (if u = 1 then length (cdf d) - 1
                    else lower_bound (cdf d) u 0 (length (cdf d)))
           in (int i, GetProperty d i))"

text \<open>
  The accelerator of \<^verbatim>\<open>GlobalConfiguration::GetSingleton().GetAccelerator()\<close> is a pointer
  to an object with virtual \<^verbatim>\<open>GetIntersect\<close> and \<^verbatim>\<open>GetBBox\<close>; the functions of the scene
  take it as an argument, \<open>None\<close> for the null pointer.
\<close>

record ('p, 'r) Accelerator =
  accel_GetIntersect ::
    "'r Ray_scheme \<Rightarrow> 'p Intersection option \<Rightarrow> bool \<times> 'p Intersection option"
  accel_GetBBox :: BBox

record 'p Scene =
  m_primitiveBuf :: "'p list"
  m_lights :: "Light list"
  m_BBox :: BBox
  m_lightsDis :: "Distribution1D option"

section \<open>Intersection\<close>

text \<open>
  The loop of \<^verbatim>\<open>_bfIntersect\<close>. The first component of the result tells whether the loop
  left the function with \<^verbatim>\<open>return true\<close>. The pointer \<^verbatim>\<open>intersect\<close> is passed by value: a
  primitive writes through it and cannot change whether it is null.
\<close>

fun bfIntersect_loop ::
  "('p, 'r) prim_intersect \<Rightarrow> 'r Ray_scheme \<Rightarrow> 'p list \<Rightarrow> 'p Intersection option
     \<Rightarrow> bool \<times> 'p Intersection option" where
  "bfIntersect_loop gi r [] intersect = (False, intersect)"
| "bfIntersect_loop gi r (p # ps) intersect =
     (case gi p r intersect of
        (flag, intersect') \<Rightarrow>
          if flag \<and> intersect = None then (True, intersect)
          else bfIntersect_loop gi r ps (if intersect = None then None else intersect'))"

definition bfIntersect ::
  "('p, 'r) prim_intersect \<Rightarrow> 'p Scene \<Rightarrow> 'r Ray_scheme \<Rightarrow> 'p Intersection option
     \<Rightarrow> bool \<times> 'p Intersection option" where
  "bfIntersect gi sc r intersect =
     (case bfIntersect_loop gi r (m_primitiveBuf sc)
             (map_option (\<lambda>h. h\<lparr>t := FLT_MAX\<rparr>) intersect) of
        (returned, intersect') \<Rightarrow>
          if returned then (True, intersect')
          else (case intersect' of
                  None \<Rightarrow> (False, None)
                | Some h \<Rightarrow> (t h < m_fMax r \<and> primitive h \<noteq> None, Some h)))"

definition GetIntersect ::
  "('p, 'r) Accelerator option \<Rightarrow> ('p, 'r) prim_intersect \<Rightarrow> 'p Scene \<Rightarrow> 'r Ray_scheme
     \<Rightarrow> 'p Intersection option \<Rightarrow> bool \<times> 'p Intersection option" where
  "GetIntersect accel gi sc r intersect =
     (let intersect' = map_option (\<lambda>h. h\<lparr>t := FLT_MAX\<rparr>) intersect
      in case accel of
           None \<Rightarrow> bfIntersect gi sc r intersect'
         | Some a \<Rightarrow> accel_GetIntersect a r intersect')"

section \<open>Auxiliary definitions for the statements\<close>

text \<open>
  \<open>hit_in_range hit_dist p r\<close> is the distance at which the primitive \<open>p\<close> meets the ray
  within the range \<open>[0, m_fMax]\<close>, if it does; \<open>record_hit\<close> is what one primitive of the
  spec does to a hit record.
\<close>

definition hit_in_range ::
  "('p \<Rightarrow> 'r Ray_scheme \<Rightarrow> real option) \<Rightarrow> 'p \<Rightarrow> 'r Ray_scheme \<Rightarrow> real option" where
  "hit_in_range hit_dist p r =
     (case hit_dist p r of
        None \<Rightarrow> None
      | Some d \<Rightarrow> if 0 \<le> d \<and> d \<le> m_fMax r then Some d else None)"

definition record_hit ::
  "('p \<Rightarrow> 'r Ray_scheme \<Rightarrow> real option) \<Rightarrow> 'r Ray_scheme \<Rightarrow> 'p Intersection \<Rightarrow> 'p
     \<Rightarrow> 'p Intersection" where
  "record_hit hit_dist r h p =
     (case hit_in_range hit_dist p r of
        None \<Rightarrow> h
      | Some d \<Rightarrow> if d < t h then h\<lparr>t := d, primitive := Some p\<rparr> else h)"

text \<open>
  The index of the first entry \<open>\<ge> u\<close> of a table, found from the left; the length of the
  table when there is none. On a sorted table it is what the binary search finds.
\<close>

fun first_ge :: "real list \<Rightarrow> real \<Rightarrow> nat" where
  "first_ge [] u = 0"
| "first_ge (c # cs) u = (if u \<le> c then 0 else Suc (first_ge cs u))"

section \<open>The accelerator of the spec\<close>

text \<open>
  Modelled from the spec: the accelerators (\<^verbatim>\<open>accel/accelerator.h\<close> and its subclasses) are
  not among the sources. The spec (4.4): \<^verbatim>\<open>setPrimitives\<close> "binds, without copying, the
  primitive set to operate on"; \<^verbatim>\<open>intersect\<close> has the "same contract as
  Primitive.intersect but composed over many primitives -- must return the globally closest
  hit (not merely the first one found) when a hit-record is supplied, and may short-circuit
  on first-any-hit when none is supplied"; the bounding box is "the union of all contained
  primitives' boxes"; "an empty primitive set yields a valid accelerator that never reports
  a hit and whose bounding box is the empty sentinel". Of several closest primitives at the
  same distance, on which the spec is silent, the first of the buffer is taken.
\<close>

fun closest_hit :: "(real \<times> 'p) list \<Rightarrow> (real \<times> 'p) option" where
  "closest_hit [] = None"
| "closest_hit (x # xs) =
     (case closest_hit xs of
        None \<Rightarrow> Some x
      | Some y \<Rightarrow> if fst y < fst x then Some y else Some x)"

fun in_range_hits ::
  "('p \<Rightarrow> 'r Ray_scheme \<Rightarrow> real option) \<Rightarrow> 'r Ray_scheme \<Rightarrow> 'p list \<Rightarrow> (real \<times> 'p) list" where
  "in_range_hits hit_dist r [] = []"
| "in_range_hits hit_dist r (p # ps) =
     (case hit_in_range hit_dist p r of
        None \<Rightarrow> in_range_hits hit_dist r ps
      | Some d \<Rightarrow> (d, p) # in_range_hits hit_dist r ps)"

definition Accelerator_GetIntersect ::
  "('p \<Rightarrow> 'r Ray_scheme \<Rightarrow> real option) \<Rightarrow> 'p list \<Rightarrow> 'r Ray_scheme \<Rightarrow> 'p Intersection option
     \<Rightarrow> bool \<times> 'p Intersection option" where
  "Accelerator_GetIntersect hit_dist prims r intersect =
     (case closest_hit (in_range_hits hit_dist r prims) of
        None \<Rightarrow> (False, intersect)
      | Some (d, p) \<Rightarrow>
          (True, map_option
                   (\<lambda>h. if d < t h then h\<lparr>t := d, primitive := Some p\<rparr> else h)
                   intersect))"

definition Accelerator_GetBBox :: "('p \<Rightarrow> BBox) \<Rightarrow> 'p list \<Rightarrow> BBox" where
  "Accelerator_GetBBox pbox prims = foldr (\<lambda>p. BBox_Union (pbox p)) prims EmptyBBox"

definition Accelerator_Build ::
  "('p \<Rightarrow> 'r Ray_scheme \<Rightarrow> real option) \<Rightarrow> ('p \<Rightarrow> BBox) \<Rightarrow> 'p list \<Rightarrow> ('p, 'r) Accelerator" where
  "Accelerator_Build hit_dist pbox prims =
     \<lparr>accel_GetIntersect = Accelerator_GetIntersect hit_dist prims,
      accel_GetBBox = Accelerator_GetBBox pbox prims\<rparr>"

text \<open>
  \<^verbatim>\<open>PreProcess\<close>: the configured accelerator, if there is one, is given the primitive buffer
  of the scene and built. A configured accelerator is its \<^verbatim>\<open>SetPrimitives\<close> and \<^verbatim>\<open>Build\<close>,
  a function from the primitives to the accelerator that answers the queries.
\<close>

definition PreProcess ::
  "('p list \<Rightarrow> ('p, 'r) Accelerator) option \<Rightarrow> 'p Scene \<Rightarrow> ('p, 'r) Accelerator option" where
  "PreProcess accel sc =
     (case accel of
        Some build \<Rightarrow> Some (build (m_primitiveBuf sc))
      | None \<Rightarrow> None)"

section \<open>Lights\<close>

text \<open>
  \<^verbatim>\<open>_genLightDistribution\<close>: each of its three iterations runs over the indices \<open>0 ..< count\<close>; the
  array \<^verbatim>\<open>pdf\<close> is a list of floats, \<^verbatim>\<open>total_pdf\<close> is accumulated from the left by float
  additions, starting at \<^verbatim>\<open>0.0f\<close>, and each pick probability is the float quotient
  \<^verbatim>\<open>pdf[i] / total_pdf\<close>. The cast of \<^verbatim>\<open>m_lights.size()\<close> to \<^verbatim>\<open>unsigned\<close> is the identity for
  fewer than \<open>2 ^ 32\<close> lights.
\<close>

definition genLightDistribution :: "'p Scene \<Rightarrow> 'p Scene" where
  "genLightDistribution sc =
     (let count = length (m_lights sc)
      in if count = 0 then sc
         else
           let pdf = map (\<lambda>i. light_power (m_lights sc ! i)) [0 ..< count];
               total_pdf = foldl (\<lambda>total i. fadd total (Fin (pdf ! i))) (Fin 0) [0 ..< count];
               lights = map (\<lambda>i. SetPickPDF (fdiv (Fin (pdf ! i)) total_pdf) (m_lights sc ! i))
                          [0 ..< count]
           in sc\<lparr>m_lights := lights, m_lightsDis := Some (Distribution1D_build pdf count)\<rparr>)"

text \<open>
  For the statements: the value of \<^verbatim>\<open>total_pdf\<close> after its loop, as a function of the list
  of powers.
\<close>

definition float_sum :: "real list \<Rightarrow> flt" where
  "float_sum pdf = foldl (\<lambda>total x. fadd total (Fin x)) (Fin 0) pdf"

text \<open>
  \<^verbatim>\<open>SampleLight\<close> starts with two assertions. The macros \<^verbatim>\<open>sAssert\<close> and \<^verbatim>\<open>sAssertMsg\<close>
  (\<^verbatim>\<open>core/sassert.h\<close>) are not among the sources; the flag \<open>asserts\<close> tells whether they are
  compiled in. A failed assertion ends the call with an error; so does, with the
  assertions compiled out, the call of \<^verbatim>\<open>SampleDiscrete\<close> through a null \<^verbatim>\<open>m_lightsDis\<close>.
  The result \<open>Inr None\<close> is the \<^verbatim>\<open>nullptr\<close> of the last line, \<open>Inr (Some (l, pdf))\<close> the
  light returned together with the value written to \<^verbatim>\<open>*pdf\<close>.
\<close>

datatype error = AssertFailed string | NullDereference

definition SampleLight :: "bool \<Rightarrow> 'p Scene \<Rightarrow> real \<Rightarrow> error + (Light \<times> real) option" where
  "SampleLight asserts sc u =
     (if asserts \<and> \<not> (0 \<le> u \<and> u \<le> 1) then Inl (AssertFailed ''u >= 0.0f && u <= 1.0f'')
      else if asserts \<and> m_lightsDis sc = None then Inl (AssertFailed ''No light in the scene.'')
      else case m_lightsDis sc of
             None \<Rightarrow> Inl NullDereference
           | Some dis \<Rightarrow>
               (case SampleDiscrete dis u of
                  (id', pdf) \<Rightarrow>
                    if 0 \<le> id' \<and> id' < int (length (m_lights sc)) \<and> pdf \<noteq> 0
                    then Inr (Some (m_lights sc ! nat id', pdf))
                    else Inr None))"

section \<open>Bounding box\<close>

text \<open>
  \<^verbatim>\<open>GetBBox\<close> is a const method that writes the mutable member \<^verbatim>\<open>m_BBox\<close>: it returns the
  box and the scene afterwards. \<open>pbox\<close> is the virtual \<^verbatim>\<open>Primitive::GetBBox\<close>.
\<close>

fun GetBBox_loop :: "('p \<Rightarrow> BBox) \<Rightarrow> 'p list \<Rightarrow> BBox \<Rightarrow> BBox" where
  "GetBBox_loop pbox [] b = b"
| "GetBBox_loop pbox (p # ps) b = GetBBox_loop pbox ps (BBox_Union b (pbox p))"

definition GetBBox ::
  "('p, 'r) Accelerator option \<Rightarrow> ('p \<Rightarrow> BBox) \<Rightarrow> 'p Scene \<Rightarrow> BBox \<times> 'p Scene" where
  "GetBBox accel pbox sc =
     (case accel of
        Some a \<Rightarrow> (accel_GetBBox a, sc)
      | None \<Rightarrow>
          let b = GetBBox_loop pbox (m_primitiveBuf sc) (m_BBox sc)
          in (b, sc\<lparr>m_BBox := b\<rparr>))"

text \<open>
  The work of one call of \<^verbatim>\<open>GetBBox\<close>: the number of calls of \<^verbatim>\<open>BBox::Union\<close> it makes,
  one for each turn of the loop.
\<close>

fun T_GetBBox_loop :: "'p list \<Rightarrow> nat" where
  "T_GetBBox_loop [] = 0"
| "T_GetBBox_loop (p # ps) = 1 + T_GetBBox_loop ps"

definition T_GetBBox :: "('p, 'r) Accelerator option \<Rightarrow> 'p Scene \<Rightarrow> nat" where
  "T_GetBBox accel sc =
     (case accel of
        Some a \<Rightarrow> 0
      | None \<Rightarrow> T_GetBBox_loop (m_primitiveBuf sc))"

section \<open>Example scenes\<close>

text \<open>
  Concrete inputs for the closed theorems below. A primitive is a number paired with the
  distance at which every ray meets it (\<open>None\<close>: the ray misses it).
\<close>

definition ex_hit :: "nat \<times> real option \<Rightarrow> Ray \<Rightarrow> real option" where
  "ex_hit p r = snd p"

definition ex_scene :: "(nat \<times> real option) list \<Rightarrow> (nat \<times> real option) Scene" where
  "ex_scene ps = \<lparr>m_primitiveBuf = ps, m_lights = [], m_BBox = EmptyBBox, m_lightsDis = None\<rparr>"

definition ex_light :: "real \<Rightarrow> Light" where
  "ex_light w = \<lparr>light_power = w, pick_pdf = Fin 0\<rparr>"

definition ex_light_scene :: "real list \<Rightarrow> (nat \<times> real option) Scene" where
  "ex_light_scene ws =
     \<lparr>m_primitiveBuf = [], m_lights = map ex_light ws, m_BBox = EmptyBBox, m_lightsDis = None\<rparr>"

definition ex_box :: "nat \<times> real option \<Rightarrow> BBox" where
  "ex_box p = Box (0, 0, 0) (real (fst p), 1, 1)"

section \<open>Shadow rays\<close>

lemma bfIntersect_loop_null:
  "bfIntersect_loop gi r ps None = ((\<exists>p\<in>set ps. fst (gi p r None)), None)"
  by (induction ps) (auto split: prod.splits)

text \<open>
  C3. With no hit record (a null \<^verbatim>\<open>intersect\<close>) and no accelerator, \<^verbatim>\<open>GetIntersect\<close> returns
  true exactly when some primitive of the buffer reports an intersection with the ray:
  true as soon as one does, whatever the primitives after it report, and false when none
  does.
\<close>

theorem GetIntersect_shadow_ray:
  "fst (GetIntersect None gi sc r None) = (\<exists>p\<in>set (m_primitiveBuf sc). fst (gi p r None))"
  by (simp add: GetIntersect_def bfIntersect_def bfIntersect_loop_null)

theorem GetIntersect_shadow_ray_witness:
  "fst (GetIntersect None (Primitive_GetIntersect ex_hit)
          (ex_scene [(1, None), (2, Some 3), (3, Some 1)]) \<lparr>m_fMax = 10\<rparr> None) \<and>
   fst (Primitive_GetIntersect ex_hit (2, Some 3) \<lparr>m_fMax = 10\<rparr> None)"
  using GetIntersect_shadow_ray [of "Primitive_GetIntersect ex_hit"
      "ex_scene [(1, None), (2, Some 3), (3, Some 1)]" "\<lparr>m_fMax = 10\<rparr>"]
  by (simp add: Primitive_GetIntersect_def ex_hit_def ex_scene_def)

section \<open>Closest hit\<close>

text \<open>
  With a hit record the loop never leaves early: every primitive of the buffer is asked in
  turn and each may overwrite the record. For the primitives of the spec the loop is a
  fold of \<open>record_hit\<close> over the buffer.
\<close>

lemma Primitive_GetIntersect_record:
  "Primitive_GetIntersect hit_dist p r (Some h) =
     (hit_in_range hit_dist p r \<noteq> None, Some (record_hit hit_dist r h p))"
  by (simp add: Primitive_GetIntersect_def hit_in_range_def record_hit_def split: option.splits)

lemma bfIntersect_loop_record:
  "bfIntersect_loop (Primitive_GetIntersect hit_dist) r ps (Some h) =
     (False, Some (foldl (record_hit hit_dist r) h ps))"
  by (induction ps arbitrary: h) (simp_all add: Primitive_GetIntersect_record)

lemma record_hit_le: "t (record_hit hit_dist r h p) \<le> t h"
  by (simp add: record_hit_def split: option.splits)

lemma foldl_record_hit_le: "t (foldl (record_hit hit_dist r) h ps) \<le> t h"
proof (induction ps rule: rev_induct)
  case Nil
  show ?case by simp
next
  case (snoc p ps)
  have "t (record_hit hit_dist r (foldl (record_hit hit_dist r) h ps) p) \<le> t (foldl (record_hit hit_dist r) h ps)"
    by (rule record_hit_le)
  with snoc show ?case by simp
qed

lemma foldl_record_hit_lower:
  "p \<in> set ps \<Longrightarrow> hit_in_range hit_dist p r = Some d \<Longrightarrow> t (foldl (record_hit hit_dist r) h ps) \<le> d"
proof (induction ps rule: rev_induct)
  case Nil
  then show ?case by simp
next
  case (snoc q qs)
  let ?h = "foldl (record_hit hit_dist r) h qs"
  have step: "t (record_hit hit_dist r ?h q) \<le> t ?h" by (rule record_hit_le)
  show ?case
  proof (cases "p = q")
    case True
    with snoc.prems have "t (record_hit hit_dist r ?h q) \<le> d"
      by (simp add: record_hit_def)
    then show ?thesis by simp
  next
    case False
    with snoc have "t ?h \<le> d" by simp
    with step show ?thesis by simp
  qed
qed

lemma foldl_record_hit_cases:
  "foldl (record_hit hit_dist r) h ps = h \<or>
   (\<exists>p\<in>set ps. hit_in_range hit_dist p r = Some (t (foldl (record_hit hit_dist r) h ps)) \<and>
       primitive (foldl (record_hit hit_dist r) h ps) = Some p \<and>
       t (foldl (record_hit hit_dist r) h ps) < t h)"
proof (induction ps rule: rev_induct)
  case Nil
  show ?case by simp
next
  case (snoc q qs)
  let ?h = "foldl (record_hit hit_dist r) h qs"
  have le: "t ?h \<le> t h" by (rule foldl_record_hit_le)
  show ?case
  proof (cases "record_hit hit_dist r ?h q = ?h")
    case True
    with snoc show ?thesis by auto
  next
    case False
    then obtain d where d: "hit_in_range hit_dist q r = Some d" "d < t ?h"
      "record_hit hit_dist r ?h q = ?h\<lparr>t := d, primitive := Some q\<rparr>"
      by (auto simp: record_hit_def split: option.splits if_splits)
    with le show ?thesis by auto
  qed
qed

lemma GetIntersect_record:
  "GetIntersect None (Primitive_GetIntersect hit_dist) sc r (Some h) =
     (let h' = foldl (record_hit hit_dist r) (h\<lparr>t := FLT_MAX\<rparr>) (m_primitiveBuf sc)
      in (t h' < m_fMax r \<and> primitive h' \<noteq> None, Some h'))"
  by (simp add: GetIntersect_def bfIntersect_def bfIntersect_loop_record Let_def)

text \<open>
  C2 (as the code has it). For a ray whose \<^verbatim>\<open>m_fMax\<close> is a finite float and any supplied
  hit record, \<^verbatim>\<open>GetIntersect\<close> without accelerator returns true exactly when some primitive
  of the buffer meets the ray at a distance \<open>d\<close> with \<open>0 \<le> d < m_fMax\<close>; the distance then
  reported satisfies \<open>0 \<le> t < m_fMax\<close>, is the distance of the primitive recorded and is the
  least distance of all primitives that meet the ray within \<open>[0, m_fMax]\<close>; when no
  primitive meets the ray within \<open>[0, m_fMax]\<close> the call returns false and the distance of
  the record is \<^verbatim>\<open>FLT_MAX\<close>.
\<close>

theorem GetIntersect_closest_hit:
  assumes fin: "m_fMax r \<le> FLT_MAX"
    and res: "GetIntersect None (Primitive_GetIntersect hit_dist) sc r (Some h) = (flag, res)"
  shows "\<exists>h'. res = Some h' \<and>
     (flag \<longleftrightarrow> (\<exists>p\<in>set (m_primitiveBuf sc). \<exists>d. hit_dist p r = Some d \<and> 0 \<le> d \<and> d < m_fMax r)) \<and>
     (flag \<longrightarrow> 0 \<le> t h' \<and> t h' < m_fMax r \<and>
        (\<exists>p\<in>set (m_primitiveBuf sc). hit_dist p r = Some (t h') \<and> primitive h' = Some p) \<and>
        (\<forall>p\<in>set (m_primitiveBuf sc). \<forall>d. hit_dist p r = Some d \<and> 0 \<le> d \<and> d \<le> m_fMax r
            \<longrightarrow> t h' \<le> d)) \<and>
     ((\<forall>p\<in>set (m_primitiveBuf sc). \<forall>d. hit_dist p r = Some d \<longrightarrow> \<not> (0 \<le> d \<and> d \<le> m_fMax r))
        \<longrightarrow> \<not> flag \<and> t h' = FLT_MAX)"
proof -
  let ?h0 = "h\<lparr>t := FLT_MAX\<rparr>"
  let ?ps = "m_primitiveBuf sc"
  let ?h' = "foldl (record_hit hit_dist r) ?h0 ?ps"
  from res have flag: "flag = (t ?h' < m_fMax r \<and> primitive ?h' \<noteq> None)" and r: "res = Some ?h'"
    by (simp_all add: GetIntersect_record Let_def)
  have lower: "t ?h' \<le> d" if "p \<in> set ?ps" "hit_in_range hit_dist p r = Some d" for p d
    using that by (rule foldl_record_hit_lower)
  have cases: "?h' = ?h0 \<or>
     (\<exists>p\<in>set ?ps. hit_in_range hit_dist p r = Some (t ?h') \<and> primitive ?h' = Some p \<and> t ?h' < t ?h0)"
    by (rule foldl_record_hit_cases)
  have range: "hit_dist p r = Some d \<and> 0 \<le> d \<and> d \<le> m_fMax r"
    if "hit_in_range hit_dist p r = Some d" for p d
    using that by (auto simp: hit_in_range_def split: option.splits if_splits)
  have inr: "hit_in_range hit_dist p r = Some d"
    if "hit_dist p r = Some d" "0 \<le> d" "d \<le> m_fMax r" for p d
    using that by (simp add: hit_in_range_def)
  have hit: "\<exists>p\<in>set ?ps. hit_dist p r = Some (t ?h') \<and> primitive ?h' = Some p \<and> 0 \<le> t ?h'"
    if "t ?h' < m_fMax r"
  proof -
    from that fin have "?h' \<noteq> ?h0" by auto
    with cases obtain p where "p \<in> set ?ps" "hit_in_range hit_dist p r = Some (t ?h')"
      "primitive ?h' = Some p" by blast
    with range [of p "t ?h'"] show ?thesis by blast
  qed
  have c1: "flag \<longleftrightarrow> (\<exists>p\<in>set ?ps. \<exists>d. hit_dist p r = Some d \<and> 0 \<le> d \<and> d < m_fMax r)"
  proof
    assume flag
    with flag hit show "\<exists>p\<in>set ?ps. \<exists>d. hit_dist p r = Some d \<and> 0 \<le> d \<and> d < m_fMax r"
      by blast
  next
    assume "\<exists>p\<in>set ?ps. \<exists>d. hit_dist p r = Some d \<and> 0 \<le> d \<and> d < m_fMax r"
    then obtain p d where p: "p \<in> set ?ps" "hit_dist p r = Some d" "0 \<le> d" "d < m_fMax r"
      by blast
    then have "t ?h' \<le> d" using lower [of p d] inr [of p d] by simp
    with p have lt: "t ?h' < m_fMax r" by simp
    from hit [OF lt] have "primitive ?h' \<noteq> None" by auto
    with lt flag show flag by simp
  qed
  have c2: "0 \<le> t ?h' \<and> t ?h' < m_fMax r \<and>
        (\<exists>p\<in>set ?ps. hit_dist p r = Some (t ?h') \<and> primitive ?h' = Some p) \<and>
        (\<forall>p\<in>set ?ps. \<forall>d. hit_dist p r = Some d \<and> 0 \<le> d \<and> d \<le> m_fMax r \<longrightarrow> t ?h' \<le> d)"
    if flag
  proof -
    from that flag have lt: "t ?h' < m_fMax r" by simp
    from hit [OF lt] lt lower inr show ?thesis by blast
  qed
  have c3: "\<not> flag \<and> t ?h' = FLT_MAX"
    if none: "\<forall>p\<in>set ?ps. \<forall>d. hit_dist p r = Some d \<longrightarrow> \<not> (0 \<le> d \<and> d \<le> m_fMax r)"
  proof -
    from none range have "\<forall>p\<in>set ?ps. hit_in_range hit_dist p r = None"
      by (metis not_Some_eq)
    with cases have "?h' = ?h0" by auto
    then have "t ?h' = FLT_MAX" by simp
    with flag fin show ?thesis by simp
  qed
  from r c1 c2 c3 show ?thesis by blast
qed

theorem GetIntersect_closest_hit_witness:
  "m_fMax \<lparr>m_fMax = 10\<rparr> \<le> FLT_MAX \<and>
   GetIntersect None (Primitive_GetIntersect ex_hit)
     (ex_scene [(1, Some 7), (2, Some 3), (3, None), (4, Some 12)]) \<lparr>m_fMax = 10\<rparr>
     (Some \<lparr>t = 0, primitive = None\<rparr>) =
   (True, Some \<lparr>t = 3, primitive = Some (2, Some 3)\<rparr>) \<and>
   ex_hit (2, Some 3) \<lparr>m_fMax = 10\<rparr> = Some 3"
proof -
  have fin: "m_fMax \<lparr>m_fMax = 10\<rparr> \<le> FLT_MAX"
    by (simp add: FLT_MAX_def)
  have res: "GetIntersect None (Primitive_GetIntersect ex_hit)
     (ex_scene [(1, Some 7), (2, Some 3), (3, None), (4, Some 12)]) \<lparr>m_fMax = 10\<rparr>
     (Some \<lparr>t = 0, primitive = None\<rparr>) =
   (True, Some \<lparr>t = 3, primitive = Some (2, Some 3)\<rparr>)"
    by (simp add: GetIntersect_def bfIntersect_def Primitive_GetIntersect_def ex_hit_def
        ex_scene_def FLT_MAX_def)
  from GetIntersect_closest_hit [OF fin res] fin res show ?thesis
    by (simp add: ex_hit_def)
qed

text \<open>
  The claim as stated, with the range \<open>[0, tMax]\<close> of the spec, fails at the upper end of
  the range: a primitive met at exactly \<^verbatim>\<open>m_fMax\<close> reports the intersection and is written
  to the record, and \<^verbatim>\<open>intersect->t < r.m_fMax\<close> then answers false.
\<close>

theorem GetIntersect_tMax_boundary_counterexample:
  "fst (Primitive_GetIntersect ex_hit (1, Some 10) \<lparr>m_fMax = 10\<rparr> None) \<and>
   GetIntersect None (Primitive_GetIntersect ex_hit) (ex_scene [(1, Some 10)]) \<lparr>m_fMax = 10\<rparr>
     (Some \<lparr>t = 0, primitive = None\<rparr>) =
   (False, Some \<lparr>t = 10, primitive = Some (1, Some 10)\<rparr>)"
  by (simp add: GetIntersect_def bfIntersect_def Primitive_GetIntersect_def ex_hit_def
      ex_scene_def FLT_MAX_def)

section \<open>Order of the primitive buffer\<close>

lemma foldl_record_hit_t_le:
  assumes "set qs \<subseteq> set ps"
  shows "t (foldl (record_hit hit_dist r) h ps) \<le> t (foldl (record_hit hit_dist r) h qs)"
proof -
  let ?f = "foldl (record_hit hit_dist r) h"
  from foldl_record_hit_cases [of hit_dist r h qs] show ?thesis
  proof
    assume "?f qs = h"
    then show ?thesis by (simp add: foldl_record_hit_le)
  next
    assume "\<exists>p\<in>set qs. hit_in_range hit_dist p r = Some (t (?f qs)) \<and>
       primitive (?f qs) = Some p \<and> t (?f qs) < t h"
    then obtain p where "p \<in> set qs" "hit_in_range hit_dist p r = Some (t (?f qs))" by blast
    with assms show ?thesis by (auto intro: foldl_record_hit_lower)
  qed
qed

lemma foldl_record_hit_t_eq:
  "set ps = set qs \<Longrightarrow>
     t (foldl (record_hit hit_dist r) h ps) = t (foldl (record_hit hit_dist r) h qs)"
  by (intro antisym foldl_record_hit_t_le) simp_all

lemma foldl_record_hit_null_eq:
  assumes "set ps = set qs"
  shows "(primitive (foldl (record_hit hit_dist r) h ps) = None) =
         (primitive (foldl (record_hit hit_dist r) h qs) = None)"
proof -
  let ?f = "foldl (record_hit hit_dist r) h"
  have teq: "t (?f ps) = t (?f qs)" using assms by (rule foldl_record_hit_t_eq)
  from foldl_record_hit_cases [of hit_dist r h ps] foldl_record_hit_cases [of hit_dist r h qs] teq
  show ?thesis by auto
qed

lemma foldl_record_hit_eq:
  assumes set: "set ps = set qs"
    and inj: "\<forall>p\<in>set ps. \<forall>q\<in>set ps.
                hit_in_range hit_dist p r = hit_in_range hit_dist q r \<and>
                hit_in_range hit_dist p r \<noteq> None \<longrightarrow> p = q"
  shows "foldl (record_hit hit_dist r) h ps = foldl (record_hit hit_dist r) (h :: 'p Intersection) qs"
proof -
  let ?f = "foldl (record_hit hit_dist r) h"
  have teq: "t (?f ps) = t (?f qs)" using set by (rule foldl_record_hit_t_eq)
  consider "?f ps = h" "?f qs = h"
    | p q where "p \<in> set ps" "hit_in_range hit_dist p r = Some (t (?f ps))"
        "primitive (?f ps) = Some p" "q \<in> set qs" "hit_in_range hit_dist q r = Some (t (?f qs))"
        "primitive (?f qs) = Some q"
    using foldl_record_hit_cases [of hit_dist r h ps] foldl_record_hit_cases [of hit_dist r h qs] teq
    by force
  then have "primitive (?f ps) = primitive (?f qs)"
  proof cases
    case 1
    then show ?thesis by simp
  next
    case 2
    from 2(1,4) set have "p \<in> set ps" "q \<in> set ps" by simp_all
    moreover from 2(2,5) teq
    have "hit_in_range hit_dist p r = hit_in_range hit_dist q r" "hit_in_range hit_dist p r \<noteq> None"
      by simp_all
    ultimately have "p = q" using inj by blast
    with 2(3,6) show ?thesis by simp
  qed
  with teq show ?thesis by (intro Intersection.equality) simp_all
qed

text \<open>
  C8 (as the code has it). For every ray, every hit record (or none) and every permutation
  of the primitive buffer, \<^verbatim>\<open>GetIntersect\<close> without accelerator returns the same boolean
  and leaves the same distance in the record; it leaves the same primitive too, hence
  the same record, when no two different primitives of the buffer meet the ray at the same
  distance within the range.
\<close>

theorem GetIntersect_permuted_buffer:
  assumes "mset (m_primitiveBuf sc') = mset (m_primitiveBuf sc)"
  shows "fst (GetIntersect None (Primitive_GetIntersect hit_dist) sc' r intersect) =
         fst (GetIntersect None (Primitive_GetIntersect hit_dist) sc r intersect) \<and>
         map_option t (snd (GetIntersect None (Primitive_GetIntersect hit_dist) sc' r intersect)) =
         map_option t (snd (GetIntersect None (Primitive_GetIntersect hit_dist) sc r intersect)) \<and>
         ((\<forall>p\<in>set (m_primitiveBuf sc). \<forall>q\<in>set (m_primitiveBuf sc). \<forall>d.
              hit_dist p r = Some d \<and> hit_dist q r = Some d \<and> 0 \<le> d \<and> d \<le> m_fMax r
              \<longrightarrow> p = q) \<longrightarrow>
          GetIntersect None (Primitive_GetIntersect hit_dist) sc' r intersect =
          GetIntersect None (Primitive_GetIntersect hit_dist) sc r intersect)"
proof -
  from assms have set: "set (m_primitiveBuf sc) = set (m_primitiveBuf sc')"
    by (metis mset_eq_setD)
  show ?thesis
  proof (cases intersect)
    case None
    with set show ?thesis
      by (simp add: GetIntersect_def bfIntersect_def bfIntersect_loop_null)
  next
    case (Some h)
    let ?f = "foldl (record_hit hit_dist r) (h\<lparr>t := FLT_MAX\<rparr>)"
    have teq: "t (?f (m_primitiveBuf sc')) = t (?f (m_primitiveBuf sc))"
      using set [symmetric] by (rule foldl_record_hit_t_eq)
    have "(primitive (?f (m_primitiveBuf sc')) = None) = (primitive (?f (m_primitiveBuf sc)) = None)"
      using set [symmetric] by (rule foldl_record_hit_null_eq)
    then have neq: "(primitive (?f (m_primitiveBuf sc')) \<noteq> None) = (primitive (?f (m_primitiveBuf sc)) \<noteq> None)"
      by simp
    have all: "?f (m_primitiveBuf sc') = ?f (m_primitiveBuf sc)"
      if "\<forall>p\<in>set (m_primitiveBuf sc). \<forall>q\<in>set (m_primitiveBuf sc).
              hit_in_range hit_dist p r = hit_in_range hit_dist q r \<and>
              hit_in_range hit_dist p r \<noteq> None \<longrightarrow> p = q"
      using set that by (intro foldl_record_hit_eq [symmetric]) simp_all
    have inj: "\<forall>p\<in>set (m_primitiveBuf sc). \<forall>q\<in>set (m_primitiveBuf sc).
              hit_in_range hit_dist p r = hit_in_range hit_dist q r \<and>
              hit_in_range hit_dist p r \<noteq> None \<longrightarrow> p = q"
      if ties: "\<forall>p\<in>set (m_primitiveBuf sc). \<forall>q\<in>set (m_primitiveBuf sc). \<forall>d.
              hit_dist p r = Some d \<and> hit_dist q r = Some d \<and> 0 \<le> d \<and> d \<le> m_fMax r
              \<longrightarrow> p = q"
    proof (intro ballI impI)
      fix p q
      assume pq: "p \<in> set (m_primitiveBuf sc)" "q \<in> set (m_primitiveBuf sc)"
        and eq: "hit_in_range hit_dist p r = hit_in_range hit_dist q r \<and>
                 hit_in_range hit_dist p r \<noteq> None"
      from eq obtain d where "hit_in_range hit_dist p r = Some d"
        by blast
      moreover from this eq have "hit_in_range hit_dist q r = Some d"
        by simp
      ultimately have "hit_dist p r = Some d \<and> hit_dist q r = Some d \<and> 0 \<le> d \<and> d \<le> m_fMax r"
        by (auto simp: hit_in_range_def split: option.splits if_splits)
      with ties pq show "p = q" by blast
    qed
    have c1: "fst (GetIntersect None (Primitive_GetIntersect hit_dist) sc' r intersect) =
         fst (GetIntersect None (Primitive_GetIntersect hit_dist) sc r intersect)"
      by (simp only: Some GetIntersect_record Let_def fst_conv teq neq)
    have c2: "map_option t (snd (GetIntersect None (Primitive_GetIntersect hit_dist) sc' r intersect)) =
         map_option t (snd (GetIntersect None (Primitive_GetIntersect hit_dist) sc r intersect))"
      using teq by (simp add: Some GetIntersect_record Let_def)
    have c3: "GetIntersect None (Primitive_GetIntersect hit_dist) sc' r intersect =
          GetIntersect None (Primitive_GetIntersect hit_dist) sc r intersect"
      if "\<forall>p\<in>set (m_primitiveBuf sc). \<forall>q\<in>set (m_primitiveBuf sc). \<forall>d.
              hit_dist p r = Some d \<and> hit_dist q r = Some d \<and> 0 \<le> d \<and> d \<le> m_fMax r
              \<longrightarrow> p = q"
      using all [OF inj [OF that]] by (simp add: Some GetIntersect_record Let_def)
    from c1 c2 c3 show ?thesis by blast
  qed
qed

theorem GetIntersect_permuted_buffer_witness:
  "mset (m_primitiveBuf (ex_scene [(2, Some 3), (1, Some 7)])) =
   mset (m_primitiveBuf (ex_scene [(1, Some 7), (2, Some 3)])) \<and>
   GetIntersect None (Primitive_GetIntersect ex_hit) (ex_scene [(2, Some 3), (1, Some 7)])
     \<lparr>m_fMax = 10\<rparr> (Some \<lparr>t = 0, primitive = None\<rparr>) =
   GetIntersect None (Primitive_GetIntersect ex_hit) (ex_scene [(1, Some 7), (2, Some 3)])
     \<lparr>m_fMax = 10\<rparr> (Some \<lparr>t = 0, primitive = None\<rparr>)"
proof -
  have perm: "mset (m_primitiveBuf (ex_scene [(2, Some 3), (1, Some 7)])) =
      mset (m_primitiveBuf (ex_scene [(1, Some 7), (2, Some 3)]))"
    by (simp add: ex_scene_def)
  have inj: "\<forall>p\<in>set (m_primitiveBuf (ex_scene [(1, Some 7), (2, Some 3)])).
      \<forall>q\<in>set (m_primitiveBuf (ex_scene [(1, Some 7), (2, Some 3)])). \<forall>d.
        ex_hit p \<lparr>m_fMax = 10\<rparr> = Some d \<and> ex_hit q \<lparr>m_fMax = 10\<rparr> = Some d \<and>
        0 \<le> d \<and> d \<le> m_fMax \<lparr>m_fMax = 10\<rparr> \<longrightarrow> p = q"
    by (simp add: ex_scene_def ex_hit_def)
  from GetIntersect_permuted_buffer [OF perm, of ex_hit "\<lparr>m_fMax = 10\<rparr>"
      "Some \<lparr>t = 0, primitive = None\<rparr>"] inj perm
  show ?thesis by blast
qed

text \<open>
  The claim as stated fails where two primitives tie: a hit replaces the record only when
  strictly closer, so of two primitives at the same distance the one earlier in the buffer
  stays in the record.
\<close>

theorem GetIntersect_tie_counterexample:
  "mset [(2, Some 3), (1, Some 3)] = mset [(1, Some 3), (2 :: nat, Some (3 :: real))] \<and>
   GetIntersect None (Primitive_GetIntersect ex_hit) (ex_scene [(1, Some 3), (2, Some 3)])
     \<lparr>m_fMax = 10\<rparr> (Some \<lparr>t = 0, primitive = None\<rparr>) =
   (True, Some \<lparr>t = 3, primitive = Some (1, Some 3)\<rparr>) \<and>
   GetIntersect None (Primitive_GetIntersect ex_hit) (ex_scene [(2, Some 3), (1, Some 3)])
     \<lparr>m_fMax = 10\<rparr> (Some \<lparr>t = 0, primitive = None\<rparr>) =
   (True, Some \<lparr>t = 3, primitive = Some (2, Some 3)\<rparr>)"
  by (simp add: GetIntersect_def bfIntersect_def Primitive_GetIntersect_def ex_hit_def
      ex_scene_def FLT_MAX_def)

section \<open>Prior contents of the hit record\<close>




section \<open>Accelerator against brute force\<close>

lemma closest_hit_None: "closest_hit xs = None \<longleftrightarrow> xs = []"
  by (cases xs) (simp_all split: option.splits)

lemma closest_hit_least:
  "closest_hit xs = Some x \<Longrightarrow> x \<in> set xs \<and> (\<forall>y\<in>set xs. fst x \<le> fst y)"
proof (induction xs arbitrary: x)
  case Nil
  then show ?case by simp
next
  case (Cons a xs)
  show ?case
  proof (cases "closest_hit xs")
    case None
    with Cons.prems have "x = a" "xs = []" by (simp_all add: closest_hit_None)
    then show ?thesis by simp
  next
    case (Some y)
    from Cons.IH [OF Some] have y: "y \<in> set xs" "\<forall>z\<in>set xs. fst y \<le> fst z" by simp_all
    show ?thesis
    proof (cases "fst y < fst a")
      case True
      with Some Cons.prems have "x = y" by simp
      with y True show ?thesis by auto
    next
      case False
      with Some Cons.prems have "x = a" by simp
      with y False show ?thesis by fastforce
    qed
  qed
qed

lemma set_in_range_hits:
  "(d, p) \<in> set (in_range_hits hit_dist r prims) \<longleftrightarrow>
     p \<in> set prims \<and> hit_in_range hit_dist p r = Some d"
  by (induction prims) (auto split: option.splits)

lemma in_range_hits_empty:
  "in_range_hits hit_dist r prims = [] \<longleftrightarrow> (\<forall>p\<in>set prims. hit_in_range hit_dist p r = None)"
proof
  assume "in_range_hits hit_dist r prims = []"
  then have "(d, p) \<notin> set (in_range_hits hit_dist r prims)" for d p by simp
  then show "\<forall>p\<in>set prims. hit_in_range hit_dist p r = None"
    by (metis set_in_range_hits not_Some_eq)
next
  assume none: "\<forall>p\<in>set prims. hit_in_range hit_dist p r = None"
  have "x \<notin> set (in_range_hits hit_dist r prims)" for x
    using none set_in_range_hits [of "fst x" "snd x" hit_dist r prims] by auto
  then show "in_range_hits hit_dist r prims = []"
    by (metis list.set_intros(1) neq_Nil_conv)
qed

text \<open>
  C1 (as the model of the spec has it). For every primitive buffer, every ray whose
  \<^verbatim>\<open>m_fMax\<close> is a finite float and every hit record (or none), \<^verbatim>\<open>GetIntersect\<close> with the
  accelerator of the spec, built by \<^verbatim>\<open>PreProcess\<close>, and \<^verbatim>\<open>GetIntersect\<close> with no accelerator
  agree in this sense: whenever the brute-force path reports a hit, so does the
  accelerator, with the same distance; and both return the same boolean whenever no
  primitive is met at exactly \<^verbatim>\<open>m_fMax\<close>. (Distances are compared exactly: rounding is not
  modelled.)
\<close>

theorem GetIntersect_accelerator:
  assumes fin: "m_fMax r \<le> FLT_MAX"
  shows
    "(fst (GetIntersect None (Primitive_GetIntersect hit_dist) sc r intersect) \<longrightarrow>
        fst (GetIntersect (PreProcess (Some (Accelerator_Build hit_dist pbox)) sc)
               (Primitive_GetIntersect hit_dist) sc r intersect) \<and>
        map_option t (snd (GetIntersect (PreProcess (Some (Accelerator_Build hit_dist pbox)) sc)
               (Primitive_GetIntersect hit_dist) sc r intersect)) =
        map_option t (snd (GetIntersect None (Primitive_GetIntersect hit_dist) sc r intersect))) \<and>
     ((\<forall>p\<in>set (m_primitiveBuf sc). hit_dist p r \<noteq> Some (m_fMax r)) \<longrightarrow>
        fst (GetIntersect (PreProcess (Some (Accelerator_Build hit_dist pbox)) sc)
               (Primitive_GetIntersect hit_dist) sc r intersect) =
        fst (GetIntersect None (Primitive_GetIntersect hit_dist) sc r intersect))"
proof (cases intersect)
  case None
  have "(closest_hit (in_range_hits hit_dist r (m_primitiveBuf sc)) \<noteq> None) =
        (\<exists>p\<in>set (m_primitiveBuf sc). hit_in_range hit_dist p r \<noteq> None)"
    by (simp add: closest_hit_None in_range_hits_empty)
  moreover have "fst (Primitive_GetIntersect hit_dist p r None) = (hit_in_range hit_dist p r \<noteq> None)" for p
    by (simp add: Primitive_GetIntersect_def hit_in_range_def split: option.splits)
  ultimately show ?thesis
    by (auto simp: None GetIntersect_def PreProcess_def Accelerator_Build_def
        Accelerator_GetIntersect_def bfIntersect_def bfIntersect_loop_null split: option.splits)
next
  case (Some h)
  let ?ps = "m_primitiveBuf sc"
  let ?h0 = "h\<lparr>t := FLT_MAX\<rparr>"
  let ?h' = "foldl (record_hit hit_dist r) ?h0 ?ps"
  let ?A = "GetIntersect (PreProcess (Some (Accelerator_Build hit_dist pbox)) sc)
              (Primitive_GetIntersect hit_dist) sc r intersect"
  let ?B = "GetIntersect None (Primitive_GetIntersect hit_dist) sc r intersect"
  let ?c = "closest_hit (in_range_hits hit_dist r ?ps)"
  have B: "?B = (t ?h' < m_fMax r \<and> primitive ?h' \<noteq> None, Some ?h')"
    by (simp add: Some GetIntersect_record Let_def)
  have A: "?A = (case ?c of None \<Rightarrow> (False, Some ?h0)
      | Some (d, p) \<Rightarrow> (True, Some (if d < FLT_MAX then ?h0\<lparr>t := d, primitive := Some p\<rparr> else ?h0)))"
    by (simp add: Some GetIntersect_def PreProcess_def Accelerator_Build_def
        Accelerator_GetIntersect_def split: option.splits)
  have cases: "?h' = ?h0 \<or>
     (\<exists>p\<in>set ?ps. hit_in_range hit_dist p r = Some (t ?h') \<and> primitive ?h' = Some p \<and> t ?h' < t ?h0)"
    by (rule foldl_record_hit_cases)
  have lower: "t ?h' \<le> d" if "p \<in> set ?ps" "hit_in_range hit_dist p r = Some d" for p d
    using that by (rule foldl_record_hit_lower)
  have c1: "fst ?A \<and> map_option t (snd ?A) = map_option t (snd ?B)" if "fst ?B"
  proof -
    from that B have lt: "t ?h' < m_fMax r" by simp
    with fin have "?h' \<noteq> ?h0" by auto
    with cases obtain p where p: "p \<in> set ?ps" "hit_in_range hit_dist p r = Some (t ?h')"
      by blast
    then have mem: "(t ?h', p) \<in> set (in_range_hits hit_dist r ?ps)"
      by (simp add: set_in_range_hits)
    then obtain d q where c: "?c = Some (d, q)"
      by (cases ?c) (auto simp: closest_hit_None)
    from closest_hit_least [OF c] mem have "(d, q) \<in> set (in_range_hits hit_dist r ?ps)" "d \<le> t ?h'"
      by auto
    moreover from this(1) have "t ?h' \<le> d"
      using lower [of q d] by (simp add: set_in_range_hits)
    ultimately have d: "d = t ?h'" by simp
    with lt fin have "d < FLT_MAX" by simp
    with c d show ?thesis by (simp add: A B)
  qed
  have c2: "fst ?A = fst ?B" if nb: "\<forall>p\<in>set ?ps. hit_dist p r \<noteq> Some (m_fMax r)"
  proof (cases "fst ?B")
    case True
    with c1 show ?thesis by simp
  next
    case False
    have "\<not> fst ?A"
    proof
      assume "fst ?A"
      then obtain d q where c: "?c = Some (d, q)"
        by (cases ?c) (auto simp: A)
      from closest_hit_least [OF c] have q: "q \<in> set ?ps" "hit_in_range hit_dist q r = Some d"
        by (simp_all add: set_in_range_hits)
      then have "hit_dist q r = Some d" "0 \<le> d" "d \<le> m_fMax r"
        by (auto simp: hit_in_range_def split: option.splits if_splits)
      with nb q(1) have dlt: "d < m_fMax r" by force
      from lower [OF q] dlt have lt: "t ?h' < m_fMax r" by simp
      with fin have "?h' \<noteq> ?h0" by auto
      with cases have "primitive ?h' \<noteq> None" by auto
      with lt False show False by (simp add: B)
    qed
    with False show ?thesis by simp
  qed
  from c1 c2 show ?thesis by blast
qed

theorem GetIntersect_accelerator_witness:
  "m_fMax \<lparr>m_fMax = 10\<rparr> \<le> FLT_MAX \<and>
   GetIntersect
     (PreProcess (Some (Accelerator_Build ex_hit ex_box)) (ex_scene [(1, Some 7), (2, Some 3), (3, None)]))
     (Primitive_GetIntersect ex_hit) (ex_scene [(1, Some 7), (2, Some 3), (3, None)])
     \<lparr>m_fMax = 10\<rparr> (Some \<lparr>t = 0, primitive = None\<rparr>) =
   (True, Some \<lparr>t = 3, primitive = Some (2, Some 3)\<rparr>) \<and>
   GetIntersect None
     (Primitive_GetIntersect ex_hit) (ex_scene [(1, Some 7), (2, Some 3), (3, None)])
     \<lparr>m_fMax = 10\<rparr> (Some \<lparr>t = 0, primitive = None\<rparr>) =
   (True, Some \<lparr>t = 3, primitive = Some (2, Some 3)\<rparr>)"
proof -
  have fin: "m_fMax \<lparr>m_fMax = 10\<rparr> \<le> FLT_MAX"
    by (simp add: FLT_MAX_def)
  from GetIntersect_accelerator [OF fin, of ex_hit "ex_scene [(1, Some 7), (2, Some 3), (3, None)]"
      "Some \<lparr>t = 0, primitive = None\<rparr>" ex_box] fin
  show ?thesis
    by (simp add: GetIntersect_def bfIntersect_def Primitive_GetIntersect_def ex_hit_def
        ex_scene_def FLT_MAX_def PreProcess_def Accelerator_Build_def
        Accelerator_GetIntersect_def hit_in_range_def)
qed

text \<open>
  The claim as stated fails for a primitive met at exactly \<^verbatim>\<open>m_fMax\<close>: within \<open>[0, tMax]\<close> it
  is a hit for the accelerator, and \<^verbatim>\<open>intersect->t < r.m_fMax\<close> makes it none for
  \<^verbatim>\<open>_bfIntersect\<close>.
\<close>

theorem GetIntersect_accelerator_counterexample:
  "GetIntersect (PreProcess (Some (Accelerator_Build ex_hit ex_box)) (ex_scene [(1, Some 10)]))
     (Primitive_GetIntersect ex_hit) (ex_scene [(1, Some 10)])
     \<lparr>m_fMax = 10\<rparr> (Some \<lparr>t = 0, primitive = None\<rparr>) =
   (True, Some \<lparr>t = 10, primitive = Some (1, Some 10)\<rparr>) \<and>
   GetIntersect None
     (Primitive_GetIntersect ex_hit) (ex_scene [(1, Some 10)])
     \<lparr>m_fMax = 10\<rparr> (Some \<lparr>t = 0, primitive = None\<rparr>) =
   (False, Some \<lparr>t = 10, primitive = Some (1, Some 10)\<rparr>)"
  by (simp add: GetIntersect_def bfIntersect_def Primitive_GetIntersect_def ex_hit_def
      ex_scene_def FLT_MAX_def PreProcess_def Accelerator_Build_def
      Accelerator_GetIntersect_def hit_in_range_def)

section \<open>Rounding to binary32\<close>

text \<open>
  What the statements on \<^verbatim>\<open>_genLightDistribution\<close> need of the float arithmetic: a float
  is rounded to itself, a rounding below the overflow threshold returns a float and is off
  by at most \<open>1 / 2 ^ 24\<close> of the exact result, or by \<open>1 / 2 ^ 150\<close> where the result is
  subnormal; the sum of two floats is a multiple of \<open>1 / 2 ^ 149\<close>, so its rounding has the
  relative bound alone.
\<close>

lemma round_half_even_int [simp]: "round_half_even (of_int n) = n"
  by (simp add: round_half_even_def)

lemma round_half_even_0 [simp]: "round_half_even 0 = 0"
  using round_half_even_int [of 0] by simp

lemma round_half_even_error: "\<bar>of_int (round_half_even y) - y\<bar> \<le> 1 / 2"
  unfolding round_half_even_def Let_def
  by (auto simp: abs_le_iff)

lemma round_half_even_nonneg: "0 \<le> y \<Longrightarrow> 0 \<le> round_half_even y"
  by (auto simp: round_half_even_def Let_def)

lemma round_half_even_le:
  assumes "y \<le> of_int n"
  shows "round_half_even y \<le> n"
proof -
  have "\<lfloor>y\<rfloor> \<le> n" using assms by (simp add: floor_le_iff)
  moreover have "y = of_int n" if "\<lfloor>y\<rfloor> = n"
    using that assms by (metis of_int_floor_le order_antisym)
  ultimately show ?thesis
    by (cases "\<lfloor>y\<rfloor> = n") (auto simp: round_half_even_def Let_def)
qed

lemma nat_floor_less_power:
  assumes "a < 2 ^ n"
  shows "nat \<lfloor>a :: real\<rfloor> < 2 ^ n"
proof -
  from assms have "a < of_int (2 ^ n)" by simp
  then have "\<lfloor>a\<rfloor> < 2 ^ n" by (simp only: floor_less_iff)
  then have "\<lfloor>a\<rfloor> < int (2 ^ n)" by simp
  then show ?thesis by (metis nat_int zless_nat_conj zero_less_numeral zero_less_power)
qed

lemma less_power_of_nat_floor:
  assumes "nat \<lfloor>a :: real\<rfloor> < 2 ^ n"
  shows "a < 2 ^ n"
proof -
  from assms have "\<lfloor>a\<rfloor> < int (2 ^ n)" by (simp add: nat_less_iff)
  then have "\<lfloor>a\<rfloor> < 2 ^ n" by simp
  then have "a < of_int (2 ^ n)" by (simp only: floor_less_iff)
  then show ?thesis by simp
qed

text \<open>The parts of one rounding below the overflow threshold.\<close>

lemma round_binary32_anatomy:
  assumes "\<bar>x\<bar> < 2 ^ 128 - 2 ^ 103"
  obtains k m where
    "round_binary32 x = Fin (sgn x * of_int m * 2 ^ k / 2 ^ 149)"
    "k = floorlog 2 (nat \<lfloor>\<bar>x\<bar> * 2 ^ 149\<rfloor>) - 24"
    "m = round_half_even (\<bar>x\<bar> * 2 ^ 149 / 2 ^ k)"
    "0 \<le> m" "k \<le> 253" "\<bar>x\<bar> * 2 ^ 149 < 2 ^ (k + 24)"
    "k \<noteq> 0 \<Longrightarrow> 2 ^ (k + 23) \<le> \<bar>x\<bar> * 2 ^ 149"
proof -
  define P :: real where "P = 2 ^ 149"
  define a where "a = \<bar>x\<bar> * P"
  define k where "k = floorlog 2 (nat \<lfloor>a\<rfloor>) - 24"
  define m where "m = round_half_even (a / 2 ^ k)"
  have P: "0 < P" by (simp add: P_def)
  have a0: "0 \<le> a" using P by (simp add: a_def)
  have rb: "round_binary32 x = Fin (sgn x * of_int m * 2 ^ k / P)"
    using assms unfolding round_binary32_def Let_def m_def k_def a_def P_def by simp
  have m0: "0 \<le> m" unfolding m_def using a0 by (intro round_half_even_nonneg) simp
  have up: "a < 2 ^ (k + 24)"
  proof -
    have "floorlog 2 (nat \<lfloor>a\<rfloor>) \<le> k + 24" by (simp add: k_def)
    then have "nat \<lfloor>a\<rfloor> < 2 ^ (k + 24)" by (rule floorlog_leD) simp
    then show ?thesis by (rule less_power_of_nat_floor)
  qed
  have k253: "k \<le> 253"
  proof -
    have "a < (2 ^ 24 - 1 / 2) * 2 ^ 253"
      using assms P by (simp add: a_def P_def)
    also have "\<dots> < 2 ^ 277" by simp
    finally have "nat \<lfloor>a\<rfloor> < 2 ^ 277" by (rule nat_floor_less_power)
    then have "floorlog 2 (nat \<lfloor>a\<rfloor>) \<le> 277" by (intro floorlog_leI) simp_all
    then show ?thesis by (simp add: k_def)
  qed
  have low: "2 ^ (k + 23) \<le> a" if "k \<noteq> 0"
  proof -
    from that have fl: "floorlog 2 (nat \<lfloor>a\<rfloor>) = k + 24" by (simp add: k_def)
    have pos: "0 < nat \<lfloor>a\<rfloor>"
    proof (rule ccontr)
      assume "\<not> 0 < nat \<lfloor>a\<rfloor>"
      then have "floorlog 2 (nat \<lfloor>a\<rfloor>) = 0" by (simp only: floorlog_eq_zero_iff) simp
      with fl show False by simp
    qed
    from floorlog_bounds [OF pos, of 2] fl have "(2::int) ^ (23 + k) \<le> \<lfloor>a\<rfloor>" by simp
    then have "of_int (2 ^ (23 + k)) \<le> a" by (simp only: le_floor_iff)
    then show ?thesis by (simp add: add.commute)
  qed
  show ?thesis
  proof (rule that [of m k])
    show "round_binary32 x = Fin (sgn x * of_int m * 2 ^ k / 2 ^ 149)"
      using rb by (simp only: P_def)
    show "k = floorlog 2 (nat \<lfloor>\<bar>x\<bar> * 2 ^ 149\<rfloor>) - 24"
      by (simp only: k_def a_def P_def)
    show "m = round_half_even (\<bar>x\<bar> * 2 ^ 149 / 2 ^ k)"
      by (simp only: m_def a_def P_def)
    show "0 \<le> m" by (rule m0)
    show "k \<le> 253" by (rule k253)
    show "\<bar>x\<bar> * 2 ^ 149 < 2 ^ (k + 24)"
      using up by (simp only: a_def P_def)
    show "2 ^ (k + 23) \<le> \<bar>x\<bar> * 2 ^ 149" if "k \<noteq> 0"
      using low [OF that] by (simp only: a_def P_def)
  qed
qed


lemma round_binary32_exact:
  assumes "binary32 x"
  shows "round_binary32 x = Fin x"
proof -
  from assms obtain m k where m: "m < 2 ^ 24" and k: "k \<le> 253"
    and x: "\<bar>x\<bar> = real m * 2 ^ k / 2 ^ 149"
    unfolding binary32_def by blast
  define a where "a = \<bar>x\<bar> * 2 ^ 149"
  define k' where "k' = floorlog 2 (nat \<lfloor>a\<rfloor>) - 24"
  have a: "a = real (m * 2 ^ k)" by (simp add: a_def x)
  have fl: "nat \<lfloor>a\<rfloor> = m * 2 ^ k"
    unfolding a by (simp only: floor_of_nat nat_int)
  have "m * 2 ^ k < 2 ^ (24 + k)"
    using m by (simp add: power_add)
  then have "floorlog 2 (m * 2 ^ k) \<le> 24 + k"
    by (intro floorlog_leI) simp_all
  then have "k' \<le> k" by (simp add: k'_def fl)
  then obtain j where j: "k = k' + j" by (metis le_Suc_ex)
  have "a / 2 ^ k' = real (m * 2 ^ j)"
    unfolding a j by (simp add: power_add)
  then have "a / 2 ^ k' = of_int (int (m * 2 ^ j))" by simp
  then have r: "round_half_even (a / 2 ^ k') = int (m * 2 ^ j)"
    by (simp only: round_half_even_int)
  have "real m \<le> 2 ^ 24 - 1"
    using m by simp
  moreover from k have "(2::real) ^ k \<le> 2 ^ 253" by (intro power_increasing) simp_all
  ultimately have "real m * 2 ^ k \<le> (2 ^ 24 - 1) * 2 ^ 253"
    by (intro mult_mono) simp_all
  then have lt: "\<not> 2 ^ 128 - 2 ^ 103 \<le> \<bar>x\<bar>"
    unfolding x by (simp add: field_simps)
  have "sgn x * of_int (int (m * 2 ^ j)) * 2 ^ k' / 2 ^ 149 = sgn x * (real m * 2 ^ k / 2 ^ 149)"
    unfolding j by (simp add: power_add)
  also have "\<dots> = sgn x * \<bar>x\<bar>" by (simp only: x)
  also have "\<dots> = x" by (simp add: sgn_real_def)
  finally have "Fin (sgn x * of_int (round_half_even (a / 2 ^ k')) * 2 ^ k' / 2 ^ 149) = Fin x"
    by (simp only: r)
  with lt show ?thesis
    unfolding round_binary32_def Let_def a_def k'_def by (simp only: if_False)
qed

lemma round_binary32_error:
  assumes "\<bar>x\<bar> < 2 ^ 128 - 2 ^ 103"
  shows "\<exists>v. round_binary32 x = Fin v \<and> \<bar>v - x\<bar> \<le> max (\<bar>x\<bar> / 2 ^ 24) (1 / 2 ^ 150) \<and>
           (x * 2 ^ 149 \<in> \<int> \<longrightarrow> \<bar>v - x\<bar> \<le> \<bar>x\<bar> / 2 ^ 24)"
proof -
  from assms obtain k m where rb: "round_binary32 x = Fin (sgn x * of_int m * 2 ^ k / 2 ^ 149)"
    and "k = floorlog 2 (nat \<lfloor>\<bar>x\<bar> * 2 ^ 149\<rfloor>) - 24"
    and m: "m = round_half_even (\<bar>x\<bar> * 2 ^ 149 / 2 ^ k)"
    and "0 \<le> m" and "k \<le> 253" and "\<bar>x\<bar> * 2 ^ 149 < 2 ^ (k + 24)"
    and low: "k \<noteq> 0 \<Longrightarrow> 2 ^ (k + 23) \<le> \<bar>x\<bar> * 2 ^ 149"
    by (rule round_binary32_anatomy) blast
  define P :: real where "P = 2 ^ 149"
  define a where "a = \<bar>x\<bar> * P"
  define v where "v = sgn x * of_int m * 2 ^ k / P"
  have P: "0 < P" by (simp add: P_def)
  have rb': "round_binary32 x = Fin v" using rb by (simp only: v_def P_def)
  have m': "m = round_half_even (a / 2 ^ k)" using m by (simp only: a_def P_def)
  have xa: "x = sgn x * (a / P)"
    using P by (simp add: a_def sgn_real_def)
  have "v - sgn x * (a / P) = sgn x * ((of_int m - a / 2 ^ k) * 2 ^ k / P)"
    using P by (simp add: v_def field_simps)
  with xa have eq: "v - x = sgn x * ((of_int m - a / 2 ^ k) * 2 ^ k / P)"
    by simp
  have abs: "\<bar>v - x\<bar> = \<bar>sgn x\<bar> * (\<bar>of_int m - a / 2 ^ k\<bar> * 2 ^ k / P)"
    using P by (simp only: eq abs_mult) (simp add: abs_mult)
  also have "\<dots> \<le> 1 * (1 / 2 * 2 ^ k / P)"
    using round_half_even_error [of "a / 2 ^ k"] P
    by (intro mult_mono divide_right_mono mult_right_mono) (simp_all add: m' sgn_real_def)
  finally have err: "\<bar>v - x\<bar> \<le> 2 ^ k / (2 * P)" by simp
  show ?thesis
  proof (cases "k = 0")
    case True
    with err have e: "\<bar>v - x\<bar> \<le> 1 / 2 ^ 150" by (simp add: P_def)
    have "\<bar>v - x\<bar> \<le> \<bar>x\<bar> / 2 ^ 24" if "x * 2 ^ 149 \<in> \<int>"
    proof -
      from that have "\<bar>x * 2 ^ 149\<bar> \<in> \<int>" by simp
      then have "a \<in> \<int>" by (simp add: a_def P_def abs_mult)
      then obtain z where "a = of_int z" by (auto elim: Ints_cases)
      with True have "of_int m - a / 2 ^ k = 0" by (simp add: m')
      with abs show ?thesis by simp
    qed
    with e rb' show ?thesis by (auto simp: max_def)
  next
    case False
    from low [OF False] have "2 ^ k * 2 ^ 23 \<le> \<bar>x\<bar> * P"
      by (simp add: power_add P_def)
    then have "2 ^ k / (2 * P) \<le> \<bar>x\<bar> / 2 ^ 24"
      using P by (simp add: field_simps)
    with err have "\<bar>v - x\<bar> \<le> \<bar>x\<bar> / 2 ^ 24" by simp
    with rb' show ?thesis by (auto simp: max_def)
  qed
qed

lemma round_binary32_binary32:
  assumes "\<bar>x\<bar> < 2 ^ 128 - 2 ^ 103" and "round_binary32 x = Fin v"
  shows "binary32 v"
proof -
  from assms(1) obtain k m where rb: "round_binary32 x = Fin (sgn x * of_int m * 2 ^ k / 2 ^ 149)"
    and "k = floorlog 2 (nat \<lfloor>\<bar>x\<bar> * 2 ^ 149\<rfloor>) - 24"
    and m: "m = round_half_even (\<bar>x\<bar> * 2 ^ 149 / 2 ^ k)"
    and m0: "0 \<le> m" and k253: "k \<le> 253" and up: "\<bar>x\<bar> * 2 ^ 149 < 2 ^ (k + 24)"
    and "k \<noteq> 0 \<Longrightarrow> 2 ^ (k + 23) \<le> \<bar>x\<bar> * 2 ^ 149"
    by (rule round_binary32_anatomy) blast
  define P :: real where "P = 2 ^ 149"
  define a where "a = \<bar>x\<bar> * P"
  have P: "0 < P" by (simp add: P_def)
  have m': "m = round_half_even (a / 2 ^ k)" using m by (simp only: a_def P_def)
  have up': "a < 2 ^ (k + 24)" using up by (simp only: a_def P_def)
  from rb assms(2) have v: "v = sgn x * of_int m * 2 ^ k / P" by (simp add: P_def)
  from up' have "a / 2 ^ k < 2 ^ 24" by (simp add: power_add field_simps)
  then have "a / 2 ^ k \<le> of_int (2 ^ 24)" by simp
  then have m24: "m \<le> 2 ^ 24" unfolding m' by (rule round_half_even_le)
  have aT: "a < (2 ^ 24 - 1 / 2) * 2 ^ 253"
    using assms(1) P by (simp add: a_def P_def)
  have top: "m < 2 ^ 24" if "k = 253"
  proof -
    define y where "y = a / 2 ^ k"
    from aT that have "y < 2 ^ 24 - 1 / 2" by (simp add: y_def field_simps)
    moreover have "m = round_half_even y" by (simp only: m' y_def)
    with round_half_even_error [of y] have "of_int m - y \<le> 1 / 2"
      by linarith
    ultimately have "of_int m < (of_int (2 ^ 24) :: real)" by simp
    then show ?thesis by (simp only: of_int_less_iff)
  qed
  have x0: "m = 0" if "x = 0" using that by (simp add: m)
  have av: "\<bar>v\<bar> = real (nat m) * 2 ^ k / P"
  proof (cases "x = 0")
    case True
    with x0 show ?thesis by (simp add: v)
  next
    case False
    then show ?thesis using P m0 by (simp add: v abs_mult sgn_real_def)
  qed
  show ?thesis
  proof (cases "m < 2 ^ 24")
    case True
    then have "nat m < 2 ^ 24" using m0 by (simp add: nat_less_iff)
    with k253 av show ?thesis unfolding binary32_def P_def by blast
  next
    case False
    with m24 have m: "m = 2 ^ 24" by simp
    with top k253 have k: "k + 1 \<le> 253" by (cases "k = 253") auto
    have "\<bar>v\<bar> = real (2 ^ 23) * 2 ^ (k + 1) / P"
      by (simp add: av m)
    moreover have "(2 :: nat) ^ 23 < 2 ^ 24" by simp
    ultimately show ?thesis using k unfolding binary32_def P_def by blast
  qed
qed

lemma binary32_grid: "binary32 x \<Longrightarrow> x * 2 ^ 149 \<in> \<int>"
proof -
  assume "binary32 x"
  then obtain m k where mk: "\<bar>x\<bar> = real m * 2 ^ k / 2 ^ 149"
    unfolding binary32_def by blast
  define P :: real where "P = 2 ^ 149"
  have P: "0 < P" by (simp add: P_def)
  from mk have "\<bar>x\<bar> * P = of_nat (m * 2 ^ k)" by (simp add: P_def)
  then have ax: "\<bar>x\<bar> * P \<in> \<int>" by (simp only: Ints_of_nat)
  have "x * P \<in> \<int>"
  proof (cases "0 \<le> x")
    case True
    with ax show ?thesis by simp
  next
    case False
    then have "\<bar>x\<bar> * P = - (x * P)" by simp
    with ax have "- (x * P) \<in> \<int>" by simp
    then have "- (- (x * P)) \<in> \<int>" by (rule Ints_minus)
    then show ?thesis by simp
  qed
  then show ?thesis by (simp only: P_def)
qed

lemma binary32_0 [simp]: "binary32 0"
  unfolding binary32_def by (intro exI [of _ 0]) simp

lemma fadd_binary32:
  assumes "binary32 s" "binary32 x" "0 \<le> s" "0 \<le> x" "s + x < 2 ^ 128 - 2 ^ 103"
  shows "\<exists>v. fadd (Fin s) (Fin x) = Fin v \<and> binary32 v \<and>
           (s + x) * (1 - 1 / 2 ^ 24) \<le> v \<and> v \<le> (s + x) * (1 + 1 / 2 ^ 24)"
proof -
  have abs: "\<bar>s + x\<bar> < 2 ^ 128 - 2 ^ 103" using assms by simp
  have "(s + x) * 2 ^ 149 = s * 2 ^ 149 + x * 2 ^ 149" by (simp add: algebra_simps)
  moreover have "s * 2 ^ 149 \<in> \<int>" "x * 2 ^ 149 \<in> \<int>"
    using assms(1,2) by (auto dest: binary32_grid)
  ultimately have grid: "(s + x) * 2 ^ 149 \<in> \<int>" by (simp only: Ints_add)
  from round_binary32_error [OF abs] grid obtain v
    where v: "round_binary32 (s + x) = Fin v" "\<bar>v - (s + x)\<bar> \<le> \<bar>s + x\<bar> / 2 ^ 24"
    by blast
  from round_binary32_binary32 [OF abs v(1)] have "binary32 v" .
  moreover have "(s + x) * (1 - 1 / 2 ^ 24) \<le> v \<and> v \<le> (s + x) * (1 + 1 / 2 ^ 24)"
  proof -
    define e where "e = (s + x) / 2 ^ 24"
    have "\<bar>v - (s + x)\<bar> \<le> e" using v(2) assms(3,4) by (simp add: e_def)
    then have "(s + x) - e \<le> v" "v \<le> (s + x) + e" by linarith+
    moreover have "(s + x) * (1 - 1 / 2 ^ 24) = (s + x) - e"
      "(s + x) * (1 + 1 / 2 ^ 24) = (s + x) + e"
      by (simp_all add: e_def field_simps)
    ultimately show ?thesis by simp
  qed
  ultimately show ?thesis using v(1) by simp
qed

lemma binary32I:
  "m < 2 ^ 24 \<Longrightarrow> k \<le> 253 \<Longrightarrow> \<bar>x\<bar> = real m * 2 ^ k / 2 ^ 149 \<Longrightarrow> binary32 x"
  unfolding binary32_def by blast

lemma floorlog_eqI:
  assumes "2 ^ (n - 1) \<le> x" "x < 2 ^ n"
  shows "floorlog 2 x = n"
proof (rule antisym)
  show "floorlog 2 x \<le> n" using assms(2) by (intro floorlog_leI) simp_all
  show "n \<le> floorlog 2 x" using assms(1) by (intro floorlog_geI) simp_all
qed

lemma binary32_FLT_MAX: "binary32 FLT_MAX"
  by (rule binary32I [of "2 ^ 24 - 1" 253]) (simp_all add: FLT_MAX_def)

lemma binary32_examples:
  "binary32 1" "binary32 3" "binary32 4" "binary32 (1 / 4)" "binary32 (3 / 4)"
  "binary32 16777216" "binary32 (- 16777216)"
proof -
  show "binary32 1" by (rule binary32I [of 1 149]) simp_all
  show "binary32 3" by (rule binary32I [of 3 149]) simp_all
  show "binary32 4" by (rule binary32I [of 1 151]) simp_all
  show "binary32 (1 / 4)" by (rule binary32I [of 1 147]) simp_all
  show "binary32 (3 / 4)" by (rule binary32I [of 3 147]) simp_all
  show "binary32 16777216" by (rule binary32I [of 1 173]) simp_all
  show "binary32 (- 16777216)" by (rule binary32I [of 1 173]) simp_all
qed

lemma round_binary32_overflow: "round_binary32 (FLT_MAX + FLT_MAX) = PosInf"
  by (simp add: round_binary32_def FLT_MAX_def)

lemma round_binary32_tie: "round_binary32 16777217 = Fin 16777216"
proof -
  have fl: "floorlog 2 (nat \<lfloor>16777217 * 2 ^ 149 :: real\<rfloor>) = 174"
    by (rule floorlog_eqI) simp_all
  have "\<lfloor>16777217 / 2 :: real\<rfloor> = 8388608" by simp
  then have "round_half_even (16777217 / 2) = 8388608"
    by (simp add: round_half_even_def Let_def)
  moreover have "(16777217 * 2 ^ 149 / 2 ^ 150 :: real) = 16777217 / 2" by simp
  ultimately show ?thesis
    using fl by (simp add: round_binary32_def Let_def)
qed

text \<open>
  The sum of non-negative floats, accumulated in binary32: it overflows to \<open>+\<infinity>\<close> or is a
  float within the factors \<open>(1 - 1 / 2 ^ 24) ^ n\<close> and \<open>(1 + 1 / 2 ^ 24) ^ n\<close> of the exact
  sum.
\<close>

lemma fadd_nonneg_cases:
  assumes "binary32 s" "binary32 x" "0 \<le> s" "0 \<le> x"
  shows "fadd (Fin s) (Fin x) = PosInf \<or>
         (\<exists>v. fadd (Fin s) (Fin x) = Fin v \<and> binary32 v \<and>
           (s + x) * (1 - 1 / 2 ^ 24) \<le> v \<and> v \<le> (s + x) * (1 + 1 / 2 ^ 24))"
proof (cases "s + x < 2 ^ 128 - 2 ^ 103")
  case True
  from fadd_binary32 [OF assms True] show ?thesis by blast
next
  case False
  then have "2 ^ 128 - 2 ^ 103 \<le> \<bar>s + x\<bar>" "0 < s + x" using assms(3,4) by simp_all
  then have "round_binary32 (s + x) = PosInf" by (simp only: round_binary32_def if_True)
  then show ?thesis by simp
qed

lemma float_sum_snoc:
  "float_sum (xs @ [x]) = fadd (float_sum xs) (Fin x)"
  by (simp add: float_sum_def)

lemma float_sum_cases:
  assumes "\<forall>x\<in>set xs. binary32 x \<and> 0 \<le> x"
  shows "float_sum xs = PosInf \<or>
         (\<exists>s. float_sum xs = Fin s \<and> binary32 s \<and>
            sum_list xs * (1 - 1 / 2 ^ 24) ^ length xs \<le> s \<and>
            s \<le> sum_list xs * (1 + 1 / 2 ^ 24) ^ length xs)"
  using assms
proof (induction xs rule: rev_induct)
  case Nil
  show ?case by (simp add: float_sum_def)
next
  case (snoc x xs)
  define u :: real where "u = 1 / 2 ^ 24"
  define n where "n = length xs"
  define S where "S = sum_list xs"
  have u: "0 < u" "u < 1" by (simp_all add: u_def)
  from snoc.prems(1) have x: "binary32 x" "0 \<le> x" and xs: "\<forall>x\<in>set xs. binary32 x \<and> 0 \<le> x"
    by simp_all
  from xs have S0: "0 \<le> S" unfolding S_def by (intro sum_list_nonneg) simp
  have Sx0: "0 \<le> S + x" using S0 x(2) by simp
  show ?case
  proof (cases "float_sum xs = PosInf")
    case True
    then show ?thesis by (simp add: float_sum_snoc)
  next
    case False
    with snoc.IH [OF xs] obtain s where s: "float_sum xs = Fin s" "binary32 s"
      "S * (1 - u) ^ n \<le> s" "s \<le> S * (1 + u) ^ n"
      by (auto simp: S_def n_def u_def)
    have p1: "1 \<le> (1 + u) ^ n" using u by (intro one_le_power) simp
    have q0: "0 \<le> (1 - u) ^ n" using u by simp
    have q1: "(1 - u) ^ n \<le> 1" using u by (intro power_le_one) simp_all
    from s(3) S0 q0 have s0: "0 \<le> s" by (meson mult_nonneg_nonneg order_trans)
    have sx_up: "s + x \<le> (S + x) * (1 + u) ^ n"
    proof -
      have "x \<le> x * (1 + u) ^ n" using x(2) p1 by (simp add: mult_le_cancel_left1)
      with s(4) show ?thesis by (simp add: algebra_simps)
    qed
    have sx_lo: "(S + x) * (1 - u) ^ n \<le> s + x"
    proof -
      have "x * (1 - u) ^ n \<le> x" using x(2) q1 by (simp add: mult_le_cancel_left2)
      with s(3) show ?thesis by (simp add: algebra_simps)
    qed
    from fadd_nonneg_cases [OF s(2) x(1) s0 x(2)] show ?thesis
    proof
      assume "fadd (Fin s) (Fin x) = PosInf"
      then show ?thesis by (simp add: float_sum_snoc s(1))
    next
      assume "\<exists>v. fadd (Fin s) (Fin x) = Fin v \<and> binary32 v \<and>
           (s + x) * (1 - 1 / 2 ^ 24) \<le> v \<and> v \<le> (s + x) * (1 + 1 / 2 ^ 24)"
      then obtain v where v: "fadd (Fin s) (Fin x) = Fin v" "binary32 v"
        "(s + x) * (1 - u) \<le> v" "v \<le> (s + x) * (1 + u)"
        by (auto simp: u_def)
      have rt: "float_sum (xs @ [x]) = Fin v"
        using s(1) v(1) by (simp add: float_sum_snoc)
      have "(s + x) * (1 + u) \<le> (S + x) * (1 + u) ^ n * (1 + u)"
        using sx_up u by (intro mult_right_mono) simp_all
      with v(4) have up: "v \<le> (S + x) * (1 + u) ^ n * (1 + u)" by simp
      have "(S + x) * (1 - u) ^ n * (1 - u) \<le> (s + x) * (1 - u)"
        using sx_lo u by (intro mult_right_mono) simp_all
      with v(3) have lo: "(S + x) * (1 - u) ^ n * (1 - u) \<le> v" by simp
      from rt v(2) up lo show ?thesis
        by (simp add: S_def n_def u_def mult.assoc)
    qed
  qed
qed

lemma member_le_sum_list_real:
  fixes xs :: "real list"
  shows "\<forall>x\<in>set xs. 0 \<le> x \<Longrightarrow> y \<in> set xs \<Longrightarrow> y \<le> sum_list xs"
proof (induction xs)
  case Nil
  then show ?case by simp
next
  case (Cons x xs)
  then have "0 \<le> sum_list xs" by (intro sum_list_nonneg) simp
  with Cons show ?case by auto
qed

lemma Bernoulli_minus:
  fixes u :: real
  assumes "0 \<le> u" "u \<le> 1"
  shows "1 - real n * u \<le> (1 - u) ^ n"
  using Bernoulli_inequality [of "- u" n] assms by simp

lemma quotient_tolerance:
  fixes u e p S s q :: real
  assumes u: "0 < u" "u < 1" and n: "2 * real n * u \<le> 1"
    and p: "0 \<le> p" and S: "0 < S"
    and lo: "S * (1 - u) ^ n \<le> s" and up: "s \<le> S * (1 + u) ^ n"
    and e: "0 \<le> e" and q: "\<bar>q - p / s\<bar> \<le> max (\<bar>p / s\<bar> * u) e"
  shows "\<bar>q - p / S\<bar> \<le> 2 * (real n + 1) * u * (p / S) + e"
proof -
  define r where "r = p / S"
  define t where "t = p / s"
  have r0: "0 \<le> r" using p S by (simp add: r_def)
  have A0: "0 < (1 - u) ^ n" using u by simp
  have B0: "0 < (1 + u) ^ n" using u by simp
  have s0: "0 < s" using lo S A0 by (meson less_le_trans mult_pos_pos)
  have t0: "0 \<le> t" using p s0 by (simp add: t_def)
  have "max (\<bar>t\<bar> * u) e \<le> t * u + e" using t0 u e by simp
  moreover from q have "\<bar>q - t\<bar> \<le> max (\<bar>t\<bar> * u) e" by (simp only: t_def)
  ultimately have "\<bar>q - t\<bar> \<le> t * u + e" by linarith
  then have "t - (t * u + e) \<le> q" "q \<le> t + (t * u + e)" by linarith+
  then have q': "t * (1 - u) - e \<le> q" "q \<le> t * (1 + u) + e"
    by (simp_all add: algebra_simps)
  have t_up: "t \<le> r / (1 - u) ^ n"
  proof -
    have "0 < S * (1 - u) ^ n" using S A0 by simp
    then have "0 < s * (S * (1 - u) ^ n)" using s0 by simp
    with lo p have "p / s \<le> p / (S * (1 - u) ^ n)"
      by (intro divide_left_mono)
    then show ?thesis by (simp add: t_def r_def)
  qed
  have t_lo: "r / (1 + u) ^ n \<le> t"
  proof -
    have "0 < S * (1 + u) ^ n" using S B0 by simp
    then have "0 < S * (1 + u) ^ n * s" using s0 by simp
    with up p have "p / (S * (1 + u) ^ n) \<le> p / s"
      by (intro divide_left_mono)
    then show ?thesis by (simp add: t_def r_def)
  qed
  have nu: "real n * u \<le> 1 / 2" using n by simp
  have bern: "1 - real n * u \<le> (1 - u) ^ n"
    using u by (intro Bernoulli_minus) simp_all
  have d0: "0 < 1 - real n * u" using nu by simp
  have A: "(1 + u) / (1 - u) ^ n \<le> 1 + 2 * (real n + 1) * u"
  proof -
    have "0 < (1 - u) ^ n * (1 - real n * u)" using A0 d0 by simp
    moreover have "0 \<le> 1 + u" using u by simp
    ultimately have "(1 + u) / (1 - u) ^ n \<le> (1 + u) / (1 - real n * u)"
      using bern by (intro divide_left_mono)
    also have "\<dots> \<le> 1 + 2 * (real n + 1) * u"
    proof -
      have "0 \<le> (real n + 1) * u * (1 - 2 * real n * u)"
        using u n by simp
      then have "1 + u \<le> (1 + 2 * (real n + 1) * u) * (1 - real n * u)"
        by (simp add: algebra_simps)
      then show ?thesis using d0 by (simp add: pos_divide_le_eq)
    qed
    finally show ?thesis .
  qed
  have B: "1 - (real n + 1) * u \<le> (1 - u) / (1 + u) ^ n"
  proof -
    have "(1 + u) * (1 - u) \<le> 1" using u by (simp add: algebra_simps)
    moreover have "0 \<le> (1 + u) * (1 - u)" using u by simp
    ultimately have "((1 + u) * (1 - u)) ^ n \<le> 1" by (intro power_le_one)
    then have "(1 + u) ^ n * (1 - u) ^ n \<le> 1" by (simp add: power_mult_distrib)
    then have "(1 - u) ^ n \<le> 1 / (1 + u) ^ n"
      using B0 by (simp add: pos_le_divide_eq mult.commute)
    then have "(1 - u) * (1 - u) ^ n \<le> (1 - u) * (1 / (1 + u) ^ n)"
      using u by (intro mult_left_mono) simp_all
    moreover have "1 - real (Suc n) * u \<le> (1 - u) ^ Suc n"
      using u by (intro Bernoulli_minus) simp_all
    ultimately show ?thesis by (simp add: algebra_simps)
  qed
  have "q \<le> t * (1 + u) + e" by (rule q'(2))
  also have "t * (1 + u) \<le> r / (1 - u) ^ n * (1 + u)"
    using t_up u by (intro mult_right_mono) simp_all
  also have "r / (1 - u) ^ n * (1 + u) = r * ((1 + u) / (1 - u) ^ n)" by simp
  also have "\<dots> \<le> r * (1 + 2 * (real n + 1) * u)"
    using A r0 by (intro mult_left_mono)
  finally have upper: "q \<le> r * (1 + 2 * (real n + 1) * u) + e" by simp
  have "r * (1 - (real n + 1) * u) \<le> r * ((1 - u) / (1 + u) ^ n)"
    using B r0 by (intro mult_left_mono)
  also have "\<dots> = r / (1 + u) ^ n * (1 - u)" by simp
  also have "\<dots> \<le> t * (1 - u)"
    using t_lo u by (intro mult_right_mono) simp_all
  finally have "r * (1 - (real n + 1) * u) - e \<le> q" using q'(1) by simp
  moreover have "r * (1 - 2 * (real n + 1) * u) \<le> r * (1 - (real n + 1) * u)"
    using r0 u by (intro mult_left_mono) simp_all
  ultimately have lower: "r * (1 - 2 * (real n + 1) * u) - e \<le> q" by simp
  from upper lower show ?thesis
    by (simp add: r_def [symmetric] abs_le_iff algebra_simps)
qed

text \<open>
  A condition on the powers alone under which \<^verbatim>\<open>total_pdf\<close> does not overflow.
\<close>

lemma float_sum_bounds:
  assumes "\<forall>x\<in>set xs. binary32 x \<and> 0 \<le> x"
    and "sum_list xs * (1 + 1 / 2 ^ 24) ^ length xs < 2 ^ 128 - 2 ^ 103"
  shows "\<exists>s. float_sum xs = Fin s \<and> binary32 s \<and>
           sum_list xs * (1 - 1 / 2 ^ 24) ^ length xs \<le> s \<and>
           s \<le> sum_list xs * (1 + 1 / 2 ^ 24) ^ length xs"
  using assms
proof (induction xs rule: rev_induct)
  case Nil
  show ?case by (simp add: float_sum_def)
next
  case (snoc x xs)
  define u :: real where "u = 1 / 2 ^ 24"
  define n where "n = length xs"
  define S where "S = sum_list xs"
  have u: "0 < u" "u < 1" by (simp_all add: u_def)
  from snoc.prems(1) have x: "binary32 x" "0 \<le> x" and xs: "\<forall>x\<in>set xs. binary32 x \<and> 0 \<le> x"
    by simp_all
  from xs have S0: "0 \<le> S" unfolding S_def by (intro sum_list_nonneg) simp
  have p1: "1 \<le> (1 + u) ^ n" using u by (intro one_le_power) simp
  have p2: "(1 + u) ^ n \<le> (1 + u) ^ Suc n" using u by (intro power_increasing) simp_all
  have q0: "0 \<le> (1 - u) ^ n" using u by simp
  have q1: "(1 - u) ^ n \<le> 1" using u by (intro power_le_one) simp_all
  from snoc.prems(2) have T: "(S + x) * (1 + u) ^ Suc n < 2 ^ 128 - 2 ^ 103"
    by (simp add: S_def n_def u_def)
  have p0: "0 \<le> (1 + u) ^ n" using u by simp
  have "S * (1 + u) ^ n \<le> (S + x) * (1 + u) ^ Suc n"
    using S0 x(2) p2 p0 by (intro mult_mono) simp_all
  with T have "S * (1 + u) ^ n < 2 ^ 128 - 2 ^ 103" by simp
  with snoc.IH [OF xs] obtain s where s: "float_sum xs = Fin s" "binary32 s"
    "S * (1 - u) ^ n \<le> s" "s \<le> S * (1 + u) ^ n"
    by (auto simp: S_def n_def u_def)
  from s(3) S0 q0 have s0: "0 \<le> s" by (meson mult_nonneg_nonneg order_trans)
  have sx_up: "s + x \<le> (S + x) * (1 + u) ^ n"
  proof -
    have "x \<le> x * (1 + u) ^ n" using x(2) p1 by (simp add: mult_le_cancel_left1)
    with s(4) show ?thesis by (simp add: algebra_simps)
  qed
  have sx_lo: "(S + x) * (1 - u) ^ n \<le> s + x"
  proof -
    have "x * (1 - u) ^ n \<le> x" using x(2) q1 by (simp add: mult_le_cancel_left2)
    with s(3) show ?thesis by (simp add: algebra_simps)
  qed
  have Sx0: "0 \<le> S + x" using S0 x(2) by simp
  have "(S + x) * (1 + u) ^ n \<le> (S + x) * (1 + u) ^ Suc n"
    by (rule mult_left_mono [OF p2 Sx0])
  with sx_up T have "s + x < 2 ^ 128 - 2 ^ 103" by simp
  from fadd_binary32 [OF s(2) x(1) s0 x(2) this] obtain v
    where v: "fadd (Fin s) (Fin x) = Fin v" "binary32 v"
      "(s + x) * (1 - u) \<le> v" "v \<le> (s + x) * (1 + u)"
    by (auto simp: u_def)
  have rt: "float_sum (xs @ [x]) = Fin v"
    using s(1) v(1) by (simp add: float_sum_snoc)
  have "v \<le> (S + x) * (1 + u) ^ n * (1 + u)"
    using v(4) sx_up u by (meson less_eq_real_def mult_right_mono order_trans add_pos_pos zero_less_one)
  moreover have "(S + x) * (1 - u) ^ n * (1 - u) \<le> v"
  proof -
    have "(S + x) * (1 - u) ^ n * (1 - u) \<le> (s + x) * (1 - u)"
      using sx_lo u by (intro mult_right_mono) simp_all
    with v(3) show ?thesis by simp
  qed
  ultimately show ?case
    using rt v(2) by (simp add: S_def n_def u_def mult.assoc)
qed

lemma float_sum_no_overflow:
  assumes floats: "\<forall>x\<in>set xs. binary32 x \<and> 0 \<le> x"
    and count: "length xs \<le> 2 ^ 23"
    and small: "2 * sum_list xs \<le> FLT_MAX"
  shows "float_sum xs \<noteq> PosInf"
proof -
  define u :: real where "u = 1 / 2 ^ 24"
  define n where "n = length xs"
  have u: "0 < u" "u < 1" by (simp_all add: u_def)
  from count have "n \<le> 2 ^ 23" by (simp only: n_def)
  then have "real n \<le> real (2 ^ 23)" by (simp only: of_nat_le_iff)
  then have nu: "real n * u \<le> 1 / 2" by (simp add: u_def)
  have "1 - real n * u \<le> (1 - u) ^ n" using u by (intro Bernoulli_minus) simp_all
  with nu have half: "1 / 2 \<le> (1 - u) ^ n" by simp
  have "(1 + u) * (1 - u) \<le> 1" using u by (simp add: algebra_simps)
  moreover have "0 \<le> (1 + u) * (1 - u)" using u by simp
  ultimately have "((1 + u) * (1 - u)) ^ n \<le> 1" by (intro power_le_one)
  then have prod: "(1 + u) ^ n * (1 - u) ^ n \<le> 1" by (simp add: power_mult_distrib)
  have p0: "0 \<le> (1 + u) ^ n" using u by simp
  have "(1 + u) ^ n * (1 / 2) \<le> (1 + u) ^ n * (1 - u) ^ n"
    using half p0 by (rule mult_left_mono)
  with prod have two: "(1 + u) ^ n \<le> 2" by simp
  from floats have S0: "0 \<le> sum_list xs" by (intro sum_list_nonneg) simp
  have "sum_list xs * (1 + u) ^ n \<le> sum_list xs * 2"
    using two S0 by (rule mult_left_mono)
  also have "\<dots> \<le> FLT_MAX" using small by simp
  also have "\<dots> < 2 ^ 128 - 2 ^ 103" by (simp add: FLT_MAX_def)
  finally have "sum_list xs * (1 + 1 / 2 ^ 24) ^ length xs < 2 ^ 128 - 2 ^ 103"
    by (simp only: u_def n_def)
  from float_sum_bounds [OF floats this] show ?thesis by auto
qed

section \<open>Pick probabilities of the lights\<close>

text \<open>
  The three iterations of \<^verbatim>\<open>_genLightDistribution\<close>, read off the list of lights: every light
  gets the float quotient of its power by \<open>float_sum\<close> of all powers, the value of
  \<^verbatim>\<open>total_pdf\<close>.
\<close>

lemma foldl_upt_nth:
  "foldl (\<lambda>a i. f a (xs ! i)) a [0 ..< length xs] = foldl f a xs"
proof (induction xs rule: rev_induct)
  case Nil
  show ?case by simp
next
  case (snoc x xs)
  have "foldl (\<lambda>a i. f a ((xs @ [x]) ! i)) a [0 ..< length xs] =
        foldl (\<lambda>a i. f a (xs ! i)) a [0 ..< length xs]"
    by (rule foldl_cong) (simp_all add: nth_append)
  with snoc.IH show ?case by simp
qed

lemma genLightDistribution_total_pdf:
  "foldl (\<lambda>total i. fadd total (Fin (map light_power ls ! i))) (Fin 0) [0 ..< length ls] =
   float_sum (map light_power ls)"
  using foldl_upt_nth [of "\<lambda>total x. fadd total (Fin x)" "map light_power ls" "Fin 0"]
  by (simp add: float_sum_def)

lemma genLightDistribution_lights:
  assumes "m_lights sc \<noteq> []"
  shows "m_lights (genLightDistribution sc) =
         map (\<lambda>l. SetPickPDF (fdiv (Fin (light_power l)) (float_sum (map light_power (m_lights sc)))) l)
           (m_lights sc)"
proof -
  let ?n = "length (m_lights sc)"
  let ?pdf = "map (\<lambda>i. light_power (m_lights sc ! i)) [0 ..< ?n]"
  let ?total = "float_sum (map light_power (m_lights sc))"
  have pdf: "?pdf = map light_power (m_lights sc)"
    by (rule nth_equalityI) simp_all
  have tot: "foldl (\<lambda>total i. fadd total (Fin (?pdf ! i))) (Fin 0) [0 ..< ?n] = ?total"
    unfolding pdf by (rule genLightDistribution_total_pdf)
  have "m_lights (genLightDistribution sc) =
      map (\<lambda>i. SetPickPDF (fdiv (Fin (?pdf ! i)) ?total) (m_lights sc ! i)) [0 ..< ?n]"
    using assms unfolding genLightDistribution_def Let_def tot by simp
  also have "\<dots> = map (\<lambda>l. SetPickPDF (fdiv (Fin (light_power l)) ?total) l) (m_lights sc)"
    by (rule nth_equalityI) simp_all
  finally show ?thesis .
qed

lemma genLightDistribution_example:
  assumes "ws \<noteq> []"
  shows "map pick_pdf (m_lights (genLightDistribution (ex_light_scene ws))) =
         map (\<lambda>w. fdiv (Fin w) (float_sum ws)) ws"
proof -
  have lights: "m_lights (ex_light_scene ws) = map ex_light ws"
    by (simp add: ex_light_scene_def)
  have powers: "map light_power (map ex_light ws) = ws"
    by (simp add: ex_light_def comp_def)
  from assms have "m_lights (ex_light_scene ws) \<noteq> []" by (simp add: lights)
  then show ?thesis
    by (simp add: genLightDistribution_lights lights powers comp_def SetPickPDF_def ex_light_def)
qed

lemma float_sum_examples:
  "float_sum [1, 3] = Fin 4"
  "float_sum [0, 0] = Fin 0"
  "float_sum [FLT_MAX, FLT_MAX] = PosInf"
  "float_sum [16777216, 1, - 16777216] = Fin 0"
proof -
  show "float_sum [1, 3] = Fin 4"
    by (simp add: float_sum_def round_binary32_exact binary32_examples)
  show "float_sum [0, 0] = Fin 0"
    by (simp add: float_sum_def round_binary32_exact)
  show "float_sum [FLT_MAX, FLT_MAX] = PosInf"
    by (simp only: float_sum_def foldl.simps fadd.simps add_0
        round_binary32_exact [OF binary32_FLT_MAX] round_binary32_overflow)
  have "float_sum [16777216, 1, - 16777216] =
        fadd (fadd (round_binary32 16777216) (Fin 1)) (Fin (- 16777216))"
    by (simp add: float_sum_def)
  also have "\<dots> = fadd (round_binary32 (16777216 + 1)) (Fin (- 16777216))"
    by (simp only: round_binary32_exact [OF binary32_examples(6)] fadd.simps)
  also have "\<dots> = fadd (Fin 16777216) (Fin (- 16777216))"
    by (simp add: round_binary32_tie)
  also have "\<dots> = Fin 0"
    by (simp add: round_binary32_exact)
  finally show "float_sum [16777216, 1, - 16777216] = Fin 0" .
qed

text \<open>
  C4 (as the code has it). For every non-empty list of at most \<open>2 ^ 23\<close> lights whose
  powers are non-negative floats with a positive sum, and whose float total
  \<^verbatim>\<open>total_pdf\<close> did not overflow to infinity: after \<^verbatim>\<open>_genLightDistribution\<close> the pick
  probability of every light \<open>i\<close> is a finite float \<open>q\<close> that equals
  \<open>power\<^sub>i / (\<Sum>j. power\<^sub>j)\<close> within floating tolerance: within the relative error
  \<open>(n + 1) / 2 ^ 23\<close> for \<open>n\<close> lights, and \<open>1 / 2 ^ 150\<close> more where the quotient is
  subnormal. The total does not overflow whenever twice the sum of the powers is at most
  \<^verbatim>\<open>FLT_MAX\<close> (\<open>float_sum_no_overflow\<close>). Powers that sum to zero are the subject of C6.
\<close>

theorem genLightDistribution_pick_pdf:
  assumes ne: "m_lights sc \<noteq> []" and i: "i < length (m_lights sc)"
    and floats: "\<forall>l\<in>set (m_lights sc). binary32 (light_power l) \<and> 0 \<le> light_power l"
    and pos: "0 < sum_list (map light_power (m_lights sc))"
    and count: "length (m_lights sc) \<le> 2 ^ 23"
    and no_overflow: "float_sum (map light_power (m_lights sc)) \<noteq> PosInf"
  shows "\<exists>q. pick_pdf (m_lights (genLightDistribution sc) ! i) = Fin q \<and>
           \<bar>q - light_power (m_lights sc ! i) / sum_list (map light_power (m_lights sc))\<bar> \<le>
             (real (length (m_lights sc)) + 1) / 2 ^ 23 *
               (light_power (m_lights sc ! i) / sum_list (map light_power (m_lights sc))) +
             1 / 2 ^ 150"
proof -
  define ps where "ps = map light_power (m_lights sc)"
  define n where "n = length (m_lights sc)"
  define S where "S = sum_list ps"
  define p where "p = light_power (m_lights sc ! i)"
  define u :: real where "u = 1 / 2 ^ 24"
  have u: "0 < u" "u < 1" by (simp_all add: u_def)
  have len: "length ps = n" by (simp add: ps_def n_def)
  have S: "0 < S" using pos by (simp add: S_def ps_def)
  have all: "\<forall>x\<in>set ps. binary32 x \<and> 0 \<le> x" using floats by (simp add: ps_def)
  have mem: "p \<in> set ps" using i by (simp add: p_def ps_def)
  with all have p0: "0 \<le> p" by blast
  have pS: "p \<le> S" unfolding S_def using all mem by (intro member_le_sum_list_real) auto
  have fin: "float_sum ps \<noteq> PosInf" unfolding ps_def by (rule no_overflow)
  from float_sum_cases [OF all] fin obtain s where s: "float_sum ps = Fin s"
    and lo: "S * (1 - u) ^ n \<le> s" and up: "s \<le> S * (1 + u) ^ n"
    unfolding S_def u_def len [symmetric] by blast
  have nu: "2 * real n * u \<le> 1"
  proof -
    from count have "n \<le> 2 ^ 23" by (simp only: n_def)
    then have "real n \<le> real (2 ^ 23)" by (simp only: of_nat_le_iff)
    then show ?thesis by (simp add: u_def)
  qed
  have half: "1 / 2 \<le> (1 - u) ^ n"
  proof -
    have "1 - real n * u \<le> (1 - u) ^ n" using u by (intro Bernoulli_minus) simp_all
    with nu show ?thesis by simp
  qed
  have "S * (1 / 2) \<le> S * (1 - u) ^ n" using half S by (intro mult_left_mono) simp_all
  with lo have sS: "S / 2 \<le> s" by simp
  with S have s0: "0 < s" by simp
  have "p / s \<le> p / (S / 2)"
    using sS p0 S s0 by (intro divide_left_mono) simp_all
  also have "\<dots> = 2 * (p / S)" by simp
  also have "\<dots> \<le> 2" using pS S by (simp add: pos_divide_le_eq)
  finally have "p / s \<le> 2" .
  moreover have "0 \<le> p / s" using p0 s0 by simp
  ultimately have "\<bar>p / s\<bar> < 2 ^ 128 - 2 ^ 103" by simp
  from round_binary32_error [OF this] obtain q where q: "round_binary32 (p / s) = Fin q"
    and err: "\<bar>q - p / s\<bar> \<le> max (\<bar>p / s\<bar> / 2 ^ 24) (1 / 2 ^ 150)"
    by blast
  from err have err': "\<bar>q - p / s\<bar> \<le> max (\<bar>p / s\<bar> * u) (1 / 2 ^ 150)"
    by (simp add: u_def)
  have eq: "2 * (real n + 1) * u = (real n + 1) / 2 ^ 23" by (simp add: u_def)
  have "\<bar>q - p / S\<bar> \<le> 2 * (real n + 1) * u * (p / S) + 1 / 2 ^ 150"
    by (rule quotient_tolerance [OF u nu p0 S lo up _ err']) simp
  then have bound: "\<bar>q - p / S\<bar> \<le> (real n + 1) / 2 ^ 23 * (p / S) + 1 / 2 ^ 150"
    by (simp only: eq)
  have "pick_pdf (m_lights (genLightDistribution sc) ! i) = fdiv (Fin p) (float_sum ps)"
    using i by (simp add: genLightDistribution_lights [OF ne] SetPickPDF_def p_def ps_def)
  also have "\<dots> = Fin q" using s0 by (simp add: s q)
  finally have "pick_pdf (m_lights (genLightDistribution sc) ! i) = Fin q" .
  with bound show ?thesis
    unfolding p_def S_def ps_def n_def by blast
qed

theorem genLightDistribution_pick_pdf_witness:
  "map pick_pdf (m_lights (genLightDistribution (ex_light_scene [1, 3]))) =
     [Fin (1 / 4), Fin (3 / 4)] \<and>
   float_sum (map light_power (m_lights (ex_light_scene [1, 3]))) = Fin 4 \<and>
   (\<exists>q. pick_pdf (m_lights (genLightDistribution (ex_light_scene [1, 3])) ! 1) = Fin q \<and>
        \<bar>q - 3 / 4\<bar> \<le> 3 / 2 ^ 23 * (3 / 4) + 1 / 2 ^ 150)"
proof -
  let ?sc = "ex_light_scene [1, 3]"
  have lights: "m_lights ?sc = [ex_light 1, ex_light 3]"
    by (simp add: ex_light_scene_def)
  have powers: "map light_power (m_lights ?sc) = [1, 3]"
    by (simp add: lights ex_light_def)
  have picks: "map pick_pdf (m_lights (genLightDistribution ?sc)) = [Fin (1 / 4), Fin (3 / 4)]"
    by (simp add: genLightDistribution_example float_sum_examples round_binary32_exact
        binary32_examples)
  have total: "float_sum (map light_power (m_lights ?sc)) = Fin 4"
    by (simp only: powers float_sum_examples)
  have ne: "m_lights ?sc \<noteq> []" by (simp add: lights)
  have i: "1 < length (m_lights ?sc)" by (simp add: lights)
  have floats: "\<forall>l\<in>set (m_lights ?sc). binary32 (light_power l) \<and> 0 \<le> light_power l"
    by (simp add: lights ex_light_def binary32_examples)
  have pos: "0 < sum_list (map light_power (m_lights ?sc))" by (simp add: powers)
  have count: "length (m_lights ?sc) \<le> 2 ^ 23" by (simp add: lights)
  have no_overflow: "float_sum (map light_power (m_lights ?sc)) \<noteq> PosInf" by (simp add: total)
  from genLightDistribution_pick_pdf [OF ne i floats pos count no_overflow]
  obtain q where "pick_pdf (m_lights (genLightDistribution ?sc) ! 1) = Fin q"
    and "\<bar>q - light_power (m_lights ?sc ! 1) / sum_list (map light_power (m_lights ?sc))\<bar> \<le>
           (real (length (m_lights ?sc)) + 1) / 2 ^ 23 *
             (light_power (m_lights ?sc ! 1) / sum_list (map light_power (m_lights ?sc))) +
           1 / 2 ^ 150"
    by blast
  then have "pick_pdf (m_lights (genLightDistribution ?sc) ! 1) = Fin q \<and>
      \<bar>q - 3 / 4\<bar> \<le> 3 / 2 ^ 23 * (3 / 4) + 1 / 2 ^ 150"
    by (simp add: powers) (simp add: lights ex_light_def)
  then have "\<exists>q. pick_pdf (m_lights (genLightDistribution ?sc) ! 1) = Fin q \<and>
      \<bar>q - 3 / 4\<bar> \<le> 3 / 2 ^ 23 * (3 / 4) + 1 / 2 ^ 150"
    by blast
  with picks total show ?thesis by blast
qed

text \<open>
  The claim as stated, for every non-empty list of lights, fails where the float sum
  leaves the finite numbers or loses what it adds. Two lights of power \<^verbatim>\<open>FLT_MAX\<close>:
  \<^verbatim>\<open>total_pdf\<close> overflows to \<open>+\<infinity>\<close> and both pick probabilities are 0, not \<open>1 / 2\<close>. Powers
  \<open>2 ^ 24\<close>, \<open>1\<close> and \<open>- 2 ^ 24\<close>, which sum to 1: \<open>2 ^ 24 + 1\<close> is rounded to \<open>2 ^ 24\<close>,
  \<^verbatim>\<open>total_pdf\<close> is 0 and the pick probabilities are infinite.
\<close>

theorem genLightDistribution_overflow_counterexample:
  "binary32 FLT_MAX \<and>
   map pick_pdf (m_lights (genLightDistribution (ex_light_scene [FLT_MAX, FLT_MAX]))) =
     [Fin 0, Fin 0] \<and>
   FLT_MAX / sum_list [FLT_MAX, FLT_MAX] = 1 / 2 \<and>
   map pick_pdf (m_lights (genLightDistribution (ex_light_scene [16777216, 1, - 16777216]))) =
     [PosInf, PosInf, NegInf] \<and>
   1 / sum_list [16777216, 1, - 16777216 :: real] = 1"
proof -
  have "map pick_pdf (m_lights (genLightDistribution (ex_light_scene [FLT_MAX, FLT_MAX]))) =
      [Fin 0, Fin 0]"
    by (simp add: genLightDistribution_example float_sum_examples)
  moreover have "FLT_MAX / sum_list [FLT_MAX, FLT_MAX] = 1 / 2"
    by (simp add: FLT_MAX_def)
  moreover have
    "map pick_pdf (m_lights (genLightDistribution (ex_light_scene [16777216, 1, - 16777216]))) =
      [PosInf, PosInf, NegInf]"
    by (simp add: genLightDistribution_example float_sum_examples)
  moreover have "1 / sum_list [16777216, 1, - 16777216 :: real] = 1"
    by simp
  ultimately show ?thesis
    using binary32_FLT_MAX by blast
qed

section \<open>Sampling a light\<close>

lemma genLightDistribution_no_lights:
  "m_lights sc = [] \<Longrightarrow> genLightDistribution sc = sc"
  by (simp add: genLightDistribution_def)

text \<open>
  C5 (as the code has it). For every \<open>u\<close> in \<open>[0, 1]\<close>, when the scene has no lights,
  \<^verbatim>\<open>_genLightDistribution\<close> returns at once and leaves \<^verbatim>\<open>m_lightsDis\<close> null, and
  \<^verbatim>\<open>SampleLight\<close> does not return a null light: it fails the assertion
  \<^verbatim>\<open>"No light in the scene."\<close> where the assertions are compiled in, and calls
  \<^verbatim>\<open>SampleDiscrete\<close> through the null pointer where they are not.
\<close>

theorem SampleLight_no_lights:
  assumes "m_lights sc = []" and "m_lightsDis sc = None" and "0 \<le> u" and "u \<le> 1"
  shows "SampleLight asserts (genLightDistribution sc) u =
           Inl (if asserts then AssertFailed ''No light in the scene.'' else NullDereference)"
  using assms by (simp add: genLightDistribution_no_lights SampleLight_def)

theorem SampleLight_no_lights_witness:
  "m_lights (ex_scene []) = [] \<and> m_lightsDis (ex_scene []) = None \<and> (0 :: real) \<le> 1 / 2 \<and>
   (1 / 2 :: real) \<le> 1 \<and>
   SampleLight False (genLightDistribution (ex_scene [])) (1 / 2) = Inl NullDereference"
proof -
  have a: "m_lights (ex_scene []) = []" and b: "m_lightsDis (ex_scene []) = None"
    by (simp_all add: ex_scene_def)
  have c: "(0 :: real) \<le> 1 / 2" and d: "(1 / 2 :: real) \<le> 1"
    by simp_all
  from SampleLight_no_lights [OF a b c d, of False] a b show ?thesis
    by simp
qed

text \<open>
  The claim as stated, a null light returned on a defined path without an assertion
  failure, is false for the empty scene.
\<close>

theorem SampleLight_no_lights_counterexample:
  "SampleLight True (genLightDistribution (ex_scene [])) (1 / 2) =
     Inl (AssertFailed ''No light in the scene.'') \<and>
   SampleLight True (genLightDistribution (ex_scene [])) (1 / 2) \<noteq> Inr None"
  by (simp add: genLightDistribution_def SampleLight_def ex_scene_def)

text \<open>
  C6. For a non-empty list of lights whose powers sum to zero the claim asks for pick
  probabilities that are numbers and for a division guarded against the zero total. The
  code divides without a guard: for two lights of power 0 it assigns \<^verbatim>\<open>0.0f / 0.0f\<close>, NaN,
  to both. Sampling afterwards does return the null light.
\<close>

theorem genLightDistribution_zero_power:
  "map pick_pdf (m_lights (genLightDistribution (ex_light_scene [0, 0]))) = [NaN, NaN] \<and>
   SampleLight True (genLightDistribution (ex_light_scene [0, 0])) (1 / 2) = Inr None"
proof -
  have "map pick_pdf (m_lights (genLightDistribution (ex_light_scene [0, 0]))) = [NaN, NaN]"
    by (simp add: genLightDistribution_example float_sum_examples)
  moreover have "m_lightsDis (genLightDistribution (ex_light_scene [0, 0])) =
      Some (Distribution1D_build [0, 0] 2)"
    by (simp add: genLightDistribution_def ex_light_scene_def ex_light_def Let_def upt_rec [of 0]
        numeral_2_eq_2)
  then have "SampleLight True (genLightDistribution (ex_light_scene [0, 0])) (1 / 2) = Inr None"
    by (simp add: SampleLight_def Distribution1D_build_def SampleDiscrete_def Let_def)
  ultimately show ?thesis by blast
qed

section \<open>The ends of the sampling interval\<close>

lemma length_prefix_sums: "length (prefix_sums a ws) = length ws"
  by (induction ws arbitrary: a) simp_all

lemma prefix_sums_snoc:
  "prefix_sums a (ws @ [x]) = prefix_sums a ws @ [a + sum_list ws + x]"
  by (induction ws arbitrary: a) (simp_all add: add.assoc)

lemma last_prefix_sums: "ws \<noteq> [] \<Longrightarrow> last (prefix_sums a ws) = a + sum_list ws"
  by (induction ws rule: rev_induct) (simp_all add: prefix_sums_snoc)

lemma prefix_sums_bounds:
  assumes "\<forall>w\<in>set ws. 0 \<le> w" and "c \<in> set (prefix_sums a ws)"
  shows "a \<le> c \<and> c \<le> a + sum_list ws"
  using assms
proof (induction ws arbitrary: a)
  case Nil
  then show ?case by simp
next
  case (Cons w ws)
  from Cons.prems have w: "0 \<le> w" and ws: "\<forall>w\<in>set ws. 0 \<le> w" by simp_all
  from ws have s: "0 \<le> sum_list ws" by (simp add: sum_list_nonneg)
  from Cons.prems(2) consider "c = a + w" | "c \<in> set (prefix_sums (a + w) ws)" by auto
  then show ?case
  proof cases
    case 1
    with w s show ?thesis by simp
  next
    case 2
    from Cons.IH [OF ws 2] w show ?thesis by simp
  qed
qed

lemma sorted_prefix_sums: "\<forall>w\<in>set ws. 0 \<le> w \<Longrightarrow> sorted (prefix_sums a ws)"
proof (induction ws arbitrary: a)
  case Nil
  show ?case by simp
next
  case (Cons w ws)
  then have w: "0 \<le> w" and ws: "\<forall>w\<in>set ws. 0 \<le> w" by simp_all
  have "a + w \<le> c" if "c \<in> set (prefix_sums (a + w) ws)" for c
    using prefix_sums_bounds [OF ws that] by simp
  with Cons.IH [OF ws] show ?case by simp
qed

lemma sorted_cdf: "sorted (cdf (Distribution1D_build f n))"
proof -
  let ?cum = "prefix_sums 0 (map (max 0) (take n f))"
  let ?T = "if ?cum = [] then 0 else last ?cum"
  have s: "sorted ?cum" by (rule sorted_prefix_sums) simp
  have nn: "0 \<le> c" if "c \<in> set ?cum" for c
    using prefix_sums_bounds [OF _ that] by simp
  have T: "0 \<le> ?T" using nn [of "last ?cum"] by simp
  have "sorted (map (\<lambda>c. c / ?T) ?cum)"
    unfolding sorted_map using s
    by (rule sorted_wrt_mono_rel [rotated]) (simp add: divide_right_mono T)
  with s show ?thesis
    by (simp add: Distribution1D_build_def Let_def)
qed

lemma first_ge_le_length: "first_ge cs u \<le> length cs"
  by (induction cs) simp_all

lemma first_ge_before: "i < first_ge cs u \<Longrightarrow> cs ! i < u"
proof (induction cs arbitrary: i)
  case Nil
  then show ?case by simp
next
  case (Cons c cs)
  then show ?case by (cases i) (auto split: if_splits)
qed

lemma first_ge_at: "first_ge cs u < length cs \<Longrightarrow> u \<le> cs ! first_ge cs u"
  by (induction cs) auto

lemma lower_bound_first_ge:
  assumes "sorted cs" and "lo \<le> first_ge cs u" and "first_ge cs u \<le> hi" and "hi \<le> length cs"
  shows "lower_bound cs u lo hi = first_ge cs u"
  using assms
proof (induction cs u lo hi rule: lower_bound.induct)
  case (1 cs u lo hi)
  let ?k = "first_ge cs u"
  let ?mid = "(lo + hi) div 2"
  show ?case
  proof (cases "lo < hi")
    case False
    with "1.prems" show ?thesis by (simp add: lower_bound.simps [of cs u lo hi])
  next
    case True
    then have mid: "lo \<le> ?mid" "?mid < hi" by simp_all
    with "1.prems" have midlen: "?mid < length cs" by simp
    show ?thesis
    proof (cases "cs ! ?mid < u")
      case less: True
      have "?mid < ?k"
      proof (rule ccontr)
        assume "\<not> ?mid < ?k"
        then have le: "?k \<le> ?mid" by simp
        with midlen have "?k < length cs" by simp
        then have "u \<le> cs ! ?k" by (rule first_ge_at)
        also from "1.prems"(1) le midlen have "cs ! ?k \<le> cs ! ?mid"
          by (simp add: sorted_nth_mono)
        finally show False using less by simp
      qed
      then have "?mid + 1 \<le> ?k" by simp
      from "1.IH"(1) [OF True refl less "1.prems"(1) this "1.prems"(3,4)] True less
      show ?thesis by (simp add: lower_bound.simps [of cs u lo hi] Let_def)
    next
      case ge: False
      have "?k \<le> ?mid"
      proof (rule ccontr)
        assume "\<not> ?k \<le> ?mid"
        then have "?mid < ?k" by simp
        then have "cs ! ?mid < u" by (rule first_ge_before)
        with ge show False by simp
      qed
      moreover from mid "1.prems" have "?mid \<le> length cs" by simp
      ultimately show ?thesis
        using "1.IH"(2) [OF True refl ge "1.prems"(1,2)] True ge
        by (simp add: lower_bound.simps [of cs u lo hi] Let_def)
    qed
  qed
qed

lemma first_ge_less: "\<exists>c\<in>set cs. u \<le> c \<Longrightarrow> first_ge cs u < length cs"
  by (induction cs) auto

lemma first_ge_all_ge: "\<forall>c\<in>set cs. u \<le> c \<Longrightarrow> first_ge cs u = 0"
  by (cases cs) simp_all

lemma first_ge_snoc: "\<forall>c\<in>set cs. c < u \<Longrightarrow> u \<le> x \<Longrightarrow> first_ge (cs @ [x]) u = length cs"
  by (induction cs) auto

lemma SampleDiscrete_first_ge:
  "SampleDiscrete (Distribution1D_build f n) u =
     (if dist_sum (Distribution1D_build f n) = 0 then (- 1, 0)
      else let i = (if u = 1 then length (cdf (Distribution1D_build f n)) - 1
                    else first_ge (cdf (Distribution1D_build f n)) u)
           in (int i, GetProperty (Distribution1D_build f n) i))"
proof -
  have "lower_bound (cdf (Distribution1D_build f n)) u 0 (length (cdf (Distribution1D_build f n))) =
      first_ge (cdf (Distribution1D_build f n)) u"
    by (rule lower_bound_first_ge) (simp_all add: sorted_cdf first_ge_le_length)
  then show ?thesis by (simp add: SampleDiscrete_def Let_def)
qed

lemma Distribution1D_build_positive:
  assumes len: "length f = n" and pos: "0 < sum_list (map (max 0) f)"
  shows "dist_sum (Distribution1D_build f n) = sum_list (map (max 0) f)"
    and "cdf (Distribution1D_build f n) =
           map (\<lambda>c. c / sum_list (map (max 0) f)) (prefix_sums 0 (map (max 0) f))"
proof -
  let ?w = "map (max 0) f"
  from pos have ne: "?w \<noteq> []" by auto
  then have cum: "prefix_sums 0 ?w \<noteq> []"
    by (metis length_prefix_sums length_0_conv)
  have tot: "last (prefix_sums 0 ?w) = sum_list ?w"
    using last_prefix_sums [OF ne, of 0] by simp
  from len cum tot pos show "dist_sum (Distribution1D_build f n) = sum_list ?w"
    by (simp add: Distribution1D_build_def Let_def)
  from len cum tot pos show "cdf (Distribution1D_build f n) =
           map (\<lambda>c. c / sum_list ?w) (prefix_sums 0 ?w)"
    by (simp add: Distribution1D_build_def Let_def)
qed

text \<open>
  The probability mass that \<^verbatim>\<open>GetProperty\<close> reads off the table is the weight over the
  total, as the spec words it.
\<close>

lemma prefix_sums_nth:
  "i < length ws \<Longrightarrow> prefix_sums a ws ! i = a + sum_list (take (Suc i) ws)"
proof (induction ws arbitrary: a i)
  case Nil
  then show ?case by simp
next
  case (Cons w ws)
  show ?case
  proof (cases i)
    case 0
    then show ?thesis by simp
  next
    case (Suc j)
    with Cons.prems have "j < length ws" by simp
    from Cons.IH [OF this, of "a + w"] Suc show ?thesis by (simp add: add.assoc)
  qed
qed

lemma GetProperty_weight:
  assumes len: "length f = n" and pos: "0 < sum_list (map (max 0) f)" and i: "i < n"
  shows "GetProperty (Distribution1D_build f n) i = max 0 (f ! i) / sum_list (map (max 0) f)"
proof -
  let ?w = "map (max 0) f"
  let ?T = "sum_list ?w"
  note build = Distribution1D_build_positive [OF len pos]
  from i len have iw: "i < length ?w" by simp
  have at: "cdf (Distribution1D_build f n) ! j = sum_list (take (Suc j) ?w) / ?T" if "j < n" for j
    using that len by (simp add: build(2) length_prefix_sums prefix_sums_nth)
  have step: "sum_list (take (Suc i) ?w) = sum_list (take i ?w) + ?w ! i"
    using iw by (simp add: take_Suc_conv_app_nth)
  show ?thesis
  proof (cases i)
    case 0
    with i len pos at [of 0] show ?thesis
      by (simp add: GetProperty_def build length_prefix_sums take_Suc_conv_app_nth)
  next
    case (Suc j)
    with i have j: "j < n" by simp
    from at [OF i] at [OF j] step Suc i len pos show ?thesis
      by (simp add: GetProperty_def build(1) build(2) length_prefix_sums diff_divide_distrib [symmetric])
  qed
qed

text \<open>The scenario of the spec: weights 1 and 3, samples at 0.1 and at 0.5.\<close>

lemma SampleDiscrete_scenario:
  "SampleDiscrete (Distribution1D_build [1, 3] 2) (1 / 10) = (0, 1 / 4)"
  "SampleDiscrete (Distribution1D_build [1, 3] 2) (1 / 2) = (1, 3 / 4)"
  by (simp_all add: SampleDiscrete_first_ge Let_def)
     (simp_all add: Distribution1D_build_def GetProperty_def Let_def)

text \<open>
  C7. For every distribution built from \<open>n\<close> weights with positive total,
  \<^verbatim>\<open>SampleDiscrete(0.0)\<close> returns index 0 and \<^verbatim>\<open>SampleDiscrete(1.0)\<close> returns the last valid
  index \<open>n - 1\<close>; no \<open>u\<close> in \<open>[0, 1]\<close> gives an index out of range.
\<close>

theorem SampleDiscrete_ends:
  assumes len: "length f = n" and pos: "0 < sum_list (map (max 0) f)"
  shows "fst (SampleDiscrete (Distribution1D_build f n) 0) = 0 \<and>
         fst (SampleDiscrete (Distribution1D_build f n) 1) = int n - 1 \<and>
         (\<forall>u. 0 \<le> u \<and> u \<le> 1 \<longrightarrow>
            0 \<le> fst (SampleDiscrete (Distribution1D_build f n) u) \<and>
            fst (SampleDiscrete (Distribution1D_build f n) u) < int n)"
proof -
  let ?w = "map (max 0) f"
  let ?T = "sum_list ?w"
  let ?d = "Distribution1D_build f n"
  note build = Distribution1D_build_positive [OF len pos]
  from pos have ne: "?w \<noteq> []" by auto
  with len have n: "0 < n" by auto
  have nonneg: "\<forall>w\<in>set ?w. 0 \<le> w" by simp
  have length_cdf: "length (cdf ?d) = n"
    using len by (simp add: build(2) length_prefix_sums)
  have search: "fst (SampleDiscrete ?d u) = int (first_ge (cdf ?d) u)" if "u \<noteq> 1" for u
    using pos that by (simp add: SampleDiscrete_first_ge build(1) Let_def)
  have edge: "fst (SampleDiscrete ?d 1) = int (n - 1)"
    using pos by (simp add: SampleDiscrete_first_ge build(1) length_cdf Let_def)
  have "\<forall>c\<in>set (cdf ?d). 0 \<le> c"
    using prefix_sums_bounds [OF nonneg] pos by (auto simp: build(2))
  then have zero: "first_ge (cdf ?d) 0 = 0"
    by (rule first_ge_all_ge)
  have cum: "prefix_sums 0 ?w \<noteq> []"
    using ne by (metis length_prefix_sums length_0_conv)
  have last: "last (cdf ?d) = 1"
    using pos last_prefix_sums [OF ne, of 0] by (simp add: build(2) last_map [OF cum])
  have cne: "cdf ?d \<noteq> []"
    using cum by (simp add: build(2))
  have range: "first_ge (cdf ?d) u < n" if "u \<le> 1" for u
  proof -
    from last cne that have "\<exists>c\<in>set (cdf ?d). u \<le> c"
      by (metis last_in_set)
    then have "first_ge (cdf ?d) u < length (cdf ?d)"
      by (rule first_ge_less)
    then show ?thesis by (simp only: length_cdf)
  qed
  have first: "fst (SampleDiscrete ?d 0) = 0"
    using search [of 0] zero by simp
  have final: "fst (SampleDiscrete ?d 1) = int n - 1"
    using edge n by simp
  have within: "0 \<le> fst (SampleDiscrete ?d u) \<and> fst (SampleDiscrete ?d u) < int n"
    if "0 \<le> u" "u \<le> 1" for u
  proof (cases "u = 1")
    case True
    with final n show ?thesis by simp
  next
    case False
    with range [OF that(2)] show ?thesis by (simp add: search)
  qed
  from first final within show ?thesis by blast
qed

theorem SampleDiscrete_ends_witness:
  "length [1, 0 :: real] = 2 \<and> 0 < sum_list (map (max 0) [1, 0 :: real]) \<and>
   fst (SampleDiscrete (Distribution1D_build [1, 0] 2) 0) = 0 \<and>
   fst (SampleDiscrete (Distribution1D_build [1, 0] 2) 1) = 1 \<and>
   0 \<le> fst (SampleDiscrete (Distribution1D_build [1, 0] 2) (1 / 2)) \<and>
   fst (SampleDiscrete (Distribution1D_build [1, 0] 2) (1 / 2)) < 2"
proof -
  have len: "length [1, 0 :: real] = 2" by simp
  have pos: "0 < sum_list (map (max 0) [1, 0 :: real])" by simp
  from SampleDiscrete_ends [OF len pos] len pos show ?thesis by simp
qed

section \<open>Bounding box of the scene\<close>

text \<open>
  The union of boxes is associative, commutative and idempotent, so the loop of
  \<^verbatim>\<open>GetBBox\<close> adds the union of all primitive boxes to \<^verbatim>\<open>m_BBox\<close>, and a second pass over
  the same buffer changes nothing.
\<close>

lemma pmin_assoc: "pmin (pmin a b) c = pmin a (pmin b c)"
  by (cases a rule: prod_cases3; cases b rule: prod_cases3; cases c rule: prod_cases3)
    (simp add: min.assoc)

lemma pmax_assoc: "pmax (pmax a b) c = pmax a (pmax b c)"
  by (cases a rule: prod_cases3; cases b rule: prod_cases3; cases c rule: prod_cases3)
    (simp add: max.assoc)

lemma pmin_commute: "pmin a b = pmin b a"
  by (cases a rule: prod_cases3; cases b rule: prod_cases3) (simp add: min.commute)

lemma pmax_commute: "pmax a b = pmax b a"
  by (cases a rule: prod_cases3; cases b rule: prod_cases3) (simp add: max.commute)

lemma pmin_idem: "pmin a a = a"
  by (cases a rule: prod_cases3) simp

lemma pmax_idem: "pmax a a = a"
  by (cases a rule: prod_cases3) simp

lemma BBox_Union_Empty_right: "BBox_Union b EmptyBBox = b"
  by (cases b) simp_all

lemma BBox_Union_assoc: "BBox_Union (BBox_Union a b) c = BBox_Union a (BBox_Union b c)"
  by (cases a; cases b; cases c) (simp_all add: pmin_assoc pmax_assoc)

lemma BBox_Union_commute: "BBox_Union a b = BBox_Union b a"
  by (cases a; cases b) (simp_all add: pmin_commute pmax_commute)

lemma BBox_Union_idem: "BBox_Union a a = a"
  by (cases a) (simp_all add: pmin_idem pmax_idem)

lemma GetBBox_loop_Union:
  "GetBBox_loop pbox ps b = BBox_Union b (GetBBox_loop pbox ps EmptyBBox)"
proof (induction ps arbitrary: b)
  case Nil
  show ?case by (simp add: BBox_Union_Empty_right)
next
  case (Cons p ps)
  have "GetBBox_loop pbox (p # ps) b = BBox_Union (BBox_Union b (pbox p)) (GetBBox_loop pbox ps EmptyBBox)"
    using Cons.IH [of "BBox_Union b (pbox p)"] by simp
  also have "\<dots> = BBox_Union b (BBox_Union (pbox p) (GetBBox_loop pbox ps EmptyBBox))"
    by (rule BBox_Union_assoc)
  also have "BBox_Union (pbox p) (GetBBox_loop pbox ps EmptyBBox) = GetBBox_loop pbox (p # ps) EmptyBBox"
    using Cons.IH [of "pbox p"] by simp
  finally show ?case .
qed

lemma GetBBox_loop_foldr:
  "GetBBox_loop pbox ps EmptyBBox = foldr (\<lambda>p. BBox_Union (pbox p)) ps EmptyBBox"
proof (induction ps)
  case Nil
  show ?case by simp
next
  case (Cons p ps)
  have "GetBBox_loop pbox (p # ps) EmptyBBox = BBox_Union (pbox p) (GetBBox_loop pbox ps EmptyBBox)"
    using GetBBox_loop_Union [of pbox ps "pbox p"] by simp
  with Cons show ?case by simp
qed

lemma GetBBox_loop_twice:
  "GetBBox_loop pbox ps (GetBBox_loop pbox ps b) = GetBBox_loop pbox ps b"
proof -
  let ?U = "GetBBox_loop pbox ps EmptyBBox"
  have "GetBBox_loop pbox ps (GetBBox_loop pbox ps b) = BBox_Union (BBox_Union b ?U) ?U"
    by (metis GetBBox_loop_Union)
  also have "\<dots> = BBox_Union b ?U"
    by (simp add: BBox_Union_assoc BBox_Union_idem)
  also have "\<dots> = GetBBox_loop pbox ps b"
    by (rule GetBBox_loop_Union [symmetric])
  finally show ?thesis .
qed

lemma GetBBox_union:
  "m_BBox sc = EmptyBBox \<Longrightarrow>
     fst (GetBBox None pbox sc) = foldr (\<lambda>p. BBox_Union (pbox p)) (m_primitiveBuf sc) EmptyBBox"
  by (simp add: GetBBox_def Let_def GetBBox_loop_foldr)

lemma GetBBox_stored: "m_BBox (snd (GetBBox None pbox sc)) = fst (GetBBox None pbox sc)"
  by (simp add: GetBBox_def Let_def)

lemma GetBBox_repeated:
  "fst (GetBBox None pbox (snd (GetBBox None pbox sc))) = fst (GetBBox None pbox sc)"
  by (simp add: GetBBox_def Let_def GetBBox_loop_twice)

lemma T_GetBBox_loop_length: "T_GetBBox_loop ps = length ps"
  by (induction ps) simp_all

lemma T_GetBBox_repeated:
  "T_GetBBox None (snd (GetBBox None pbox sc)) = length (m_primitiveBuf sc)"
  by (simp add: T_GetBBox_def GetBBox_def Let_def T_GetBBox_loop_length)

text \<open>
  C9. Without accelerator \<^verbatim>\<open>GetBBox\<close> returns the union of the boxes of all primitives
  (\<open>GetBBox_union\<close>), stores it in \<^verbatim>\<open>m_BBox\<close> (\<open>GetBBox_stored\<close>) and returns the same box
  on every later call (\<open>GetBBox_repeated\<close>). The box is not computed once and reused: no
  call tests whether \<^verbatim>\<open>m_BBox\<close> has been computed, and every call runs the whole loop
  again (\<open>T_GetBBox_repeated\<close>). On a scene of two primitives the first call makes two
  unions, and so does the second.
\<close>

theorem GetBBox_recomputes:
  "fst (GetBBox None ex_box (ex_scene [(1, None), (2, None)])) = Box (0, 0, 0) (2, 1, 1) \<and>
   T_GetBBox None (ex_scene [(1, None), (2, None)]) = 2 \<and>
   fst (GetBBox None ex_box (snd (GetBBox None ex_box (ex_scene [(1, None), (2, None)])))) =
     Box (0, 0, 0) (2, 1, 1) \<and>
   T_GetBBox None (snd (GetBBox None ex_box (ex_scene [(1, None), (2, None)]))) = 2"
  by (simp add: GetBBox_def T_GetBBox_def ex_scene_def ex_box_def Let_def)

end
